theory Spec2Isabelle
  imports Main "HOL-Library.AList"
begin

section \<open>Data model\<close>

text \<open>
  The repository keeps immutable vertices in a reference-counted store
  (\<^verbatim>\<open>ManagedVertexMap\<close> in \<^verbatim>\<open>include/vertex/Forest.h\<close>) and rewrites paths
  of a tree over that store copy-on-write (\<^verbatim>\<open>Tree\<close>).

  \<^verbatim>\<open>Vertex.h\<close> is not among the sources. A vertex is modelled by the two
  components the code reads and writes, its payload and its ordered child keys
  (\<^verbatim>\<open>edges()\<close>, \<^verbatim>\<open>children()\<close>, the setter \<^verbatim>\<open>edges(children)\<close>). Its accessor
  \<^verbatim>\<open>self_edge()\<close> is a parameter \<open>self_edge\<close> of every function that
  calls it: nothing is assumed about how a vertex determines its own key.

  A \<^verbatim>\<open>std::map\<close> iterator is modelled by the key it points at, \<open>None\<close> being
  \<^verbatim>\<open>end()\<close>. Dereferencing \<^verbatim>\<open>end()\<close> or an iterator whose element has been
  erased is undefined behaviour in the source and the error \<open>InvalidIterator\<close>
  here; a failed \<^verbatim>\<open>assert\<close> is the error \<open>AssertionFailure\<close>.
\<close>

datatype error = AssertionFailure | InvalidIterator

record ('k, 'p) vertex =
  payload :: 'p
  edges :: "'k list"

text \<open>
  \<open>m_vertices\<close> is the \<^verbatim>\<open>vertices_\<close> member, a \<^verbatim>\<open>std::map\<close> from key to vertex, kept as a list of pairs in
  key order. \<open>m_edges\<close> is \<^verbatim>\<open>edges_\<close>, the \<^verbatim>\<open>std::multimap\<close> from child key to parent key. The code
  only uses \<^verbatim>\<open>count\<close>, \<^verbatim>\<open>equal_range\<close>, \<^verbatim>\<open>find\<close>, \<^verbatim>\<open>insert\<close> and
  \<^verbatim>\<open>erase\<close> on it, which see the entries of one key in the order of their insertion;
  the list keeps all entries in insertion order.
\<close>

record ('k, 'p) managed_vertex_map =
  m_vertices :: "('k \<times> ('k, 'p) vertex) list"
  m_edges :: "('k \<times> 'k) list"

text \<open>
  An iterator into the edge multimap. \<open>At e\<close> points at the first entry equal to
  \<open>e\<close>, which is what \<^verbatim>\<open>find(edge)\<close> returns. \<open>Gone e\<close> is a second copy of an
  iterator that is already waiting in the work queue of the cascading erase: by the
  time it is taken from the queue its entry has been erased through the first copy.
\<close>

datatype 'k edge_iterator = End | At "'k \<times> 'k" | Gone "'k \<times> 'k"

section \<open>The managed store\<close>

definition at :: "('k, 'p) managed_vertex_map \<Rightarrow> 'k \<Rightarrow> ('k, 'p) vertex option" where
  "at m k = map_of (m_vertices m) k"

text \<open>\<^verbatim>\<open>ManagedVertexMap::find(key)\<close>\<close>

definition find_vertex :: "('k, 'p) managed_vertex_map \<Rightarrow> 'k \<Rightarrow> 'k option" where
  "find_vertex m k = (case at m k of None \<Rightarrow> None | Some v \<Rightarrow> Some k)"

text \<open>\<^verbatim>\<open>ManagedVertexMap::count(key)\<close>: the number of edges whose child is the key.\<close>

definition count_key :: "('k, 'p) managed_vertex_map \<Rightarrow> 'k \<Rightarrow> nat" where
  "count_key m k = length (filter (\<lambda>e. fst e = k) (m_edges m))"

text \<open>\<^verbatim>\<open>edges().equal_range(key)\<close>\<close>

definition equal_range :: "('k, 'p) managed_vertex_map \<Rightarrow> 'k \<Rightarrow> ('k \<times> 'k) list" where
  "equal_range m k = filter (\<lambda>e. fst e = k) (m_edges m)"

text \<open>
  \<^verbatim>\<open>ManagedVertexMap::insert(value)\<close>. \<^verbatim>\<open>std::map::insert\<close> stores nothing when the key
  is occupied; the loop over the children adds their edges in both cases.
\<close>

definition insert_vertex ::
  "('k::linorder, 'p) managed_vertex_map \<Rightarrow> 'k \<times> ('k, 'p) vertex
     \<Rightarrow> ('k, 'p) managed_vertex_map \<times> 'k option \<times> bool" where
  "insert_vertex m value =
     (let inserted = (at m (fst value) = None);
          vs = (if inserted then insort_key fst value (m_vertices m) else m_vertices m)
      in (m\<lparr>m_vertices := vs,
            m_edges := m_edges m @ map (\<lambda>link. (link, fst value)) (edges (snd value))\<rparr>,
          Some (fst value), inserted))"

text \<open>\<^verbatim>\<open>ManagedVertexMap::find(edge)\<close>\<close>

definition find_edge :: "('k, 'p) managed_vertex_map \<Rightarrow> 'k \<times> 'k \<Rightarrow> 'k edge_iterator" where
  "find_edge m edge = (if edge \<in> set (m_edges m) then At edge else End)"

text \<open>
  The iterators that the cascading erase pushes for the children of an erased vertex:
  \<^verbatim>\<open>find(edge_type(grandchild, vertex->first))\<close> for each child in turn, all on
  the same multimap, so that a child listed twice yields the same iterator twice.
\<close>

fun find_edges ::
  "('k, 'p) managed_vertex_map \<Rightarrow> 'k \<Rightarrow> 'k list \<Rightarrow> 'k list \<Rightarrow> 'k edge_iterator list" where
  "find_edges m parent seen [] = []"
| "find_edges m parent seen (grandchild # rest) =
     (if (grandchild, parent) \<in> set (m_edges m) \<and> grandchild \<in> set seen
      then Gone (grandchild, parent)
      else find_edge m (grandchild, parent))
     # find_edges m parent (grandchild # seen) rest"

definition erase_key ::
  "'k \<Rightarrow> ('k \<times> ('k, 'p) vertex) list \<Rightarrow> ('k \<times> ('k, 'p) vertex) list" where
  "erase_key k vs = filter (\<lambda>p. fst p \<noteq> k) vs"

text \<open>
  \<^verbatim>\<open>ManagedVertexMap::erase(edge_iterator)\<close>: the work queue \<^verbatim>\<open>to_visit\<close> of
  edge iterators, taken from the front and extended at the back. The iterator the
  source returns is read by none of its callers and is not modelled.
\<close>

function erase_edge_at ::
  "('k, 'p) managed_vertex_map \<Rightarrow> 'k edge_iterator list \<Rightarrow> error + ('k, 'p) managed_vertex_map"
where
  "erase_edge_at m [] = Inr m"
| "erase_edge_at m (End # to_visit) = Inl AssertionFailure"
| "erase_edge_at m (Gone e # to_visit) = Inl InvalidIterator"
| "erase_edge_at m (At e # to_visit) =
     (if e \<notin> set (m_edges m) then Inl InvalidIterator
      else
        (let child = fst e;
             m1 = m\<lparr>m_edges := remove1 e (m_edges m)\<rparr>
         in if count_key m1 child = 0
            then (case at m1 child of
                    None \<Rightarrow> erase_edge_at m1 to_visit
                  | Some vertex \<Rightarrow>
                      erase_edge_at (m1\<lparr>m_vertices := erase_key child (m_vertices m1)\<rparr>)
                        (to_visit @ find_edges m1 child [] (edges vertex)))
            else erase_edge_at m1 to_visit))"
  by pat_completeness auto
termination
  by (relation "measure (\<lambda>(m, q). length (m_edges m))")
     (auto simp: length_remove1 in_set_conv_nth intro: diff_less)

text \<open>\<^verbatim>\<open>ManagedVertexMap::erase(const edge_type&)\<close>\<close>

definition erase_edge ::
  "('k, 'p) managed_vertex_map \<Rightarrow> 'k \<times> 'k \<Rightarrow> error + ('k, 'p) managed_vertex_map" where
  "erase_edge m edge =
     (case find_edge m edge of End \<Rightarrow> Inr m | result \<Rightarrow> erase_edge_at m [result])"

text \<open>The loop of \<^verbatim>\<open>erase(iterator)\<close> over the children of the vertex.\<close>

fun erase_child_edges ::
  "('k, 'p) managed_vertex_map \<Rightarrow> 'k \<Rightarrow> 'k list \<Rightarrow> error + ('k, 'p) managed_vertex_map" where
  "erase_child_edges m edge [] = Inr m"
| "erase_child_edges m edge (child # rest) =
     (case erase_edge m (child, edge) of
        Inl e \<Rightarrow> Inl e
      | Inr m' \<Rightarrow> erase_child_edges m' edge rest)"

text \<open>The iterator after the one at key \<open>k\<close>, which \<^verbatim>\<open>std::map::erase\<close> returns.\<close>

definition next_vertex :: "('k::linorder \<times> ('k, 'p) vertex) list \<Rightarrow> 'k \<Rightarrow> 'k option" where
  "next_vertex vs k =
     (case dropWhile (\<lambda>p. fst p \<le> k) vs of [] \<Rightarrow> None | p # _ \<Rightarrow> Some (fst p))"

text \<open>
  \<^verbatim>\<open>ManagedVertexMap::erase(iterator)\<close>. The vertex is erased only when no edge names
  its key as child; otherwise the store is left as it is and \<^verbatim>\<open>pos\<close> is returned.
\<close>

definition erase_vertex ::
  "(('k::linorder, 'p) vertex \<Rightarrow> 'k) \<Rightarrow> ('k, 'p) managed_vertex_map \<Rightarrow> 'k option
     \<Rightarrow> error + (('k, 'p) managed_vertex_map \<times> 'k option)" where
  "erase_vertex self_edge m pos =
     (case pos of
        None \<Rightarrow> Inl InvalidIterator
      | Some edge \<Rightarrow>
          (case at m edge of
             None \<Rightarrow> Inl InvalidIterator
           | Some vertex \<Rightarrow>
               if self_edge vertex \<noteq> edge then Inl AssertionFailure
               else if count_key m edge = 0
               then (case erase_child_edges m edge (edges vertex) of
                       Inl e \<Rightarrow> Inl e
                     | Inr m' \<Rightarrow>
                         Inr (m'\<lparr>m_vertices := erase_key edge (m_vertices m')\<rparr>,
                              next_vertex (m_vertices m') edge))
               else Inr (m, pos)))"

text \<open>\<^verbatim>\<open>ManagedVertexMap::clear()\<close>\<close>

definition clear :: "('k, 'p) managed_vertex_map \<Rightarrow> ('k, 'p) managed_vertex_map" where
  "clear m = m\<lparr>m_edges := [], m_vertices := []\<rparr>"

text \<open>
  \<^verbatim>\<open>Forest::insert(const link_value_type&)\<close>, the insertion of a single edge that
  \<^verbatim>\<open>Tree::Pin\<close> calls: both ends must be stored, and an edge that is already there is
  not added again.
\<close>

definition insert_edge ::
  "('k, 'p) managed_vertex_map \<Rightarrow> 'k \<times> 'k
     \<Rightarrow> error + (('k, 'p) managed_vertex_map \<times> 'k edge_iterator \<times> bool)" where
  "insert_edge m link =
     (if find_vertex m (fst link) = None then Inl AssertionFailure
      else if find_vertex m (snd link) = None then Inl AssertionFailure
      else (case find_edge m link of
              End \<Rightarrow> Inr (m\<lparr>m_edges := m_edges m @ [link]\<rparr>, At link, True)
            | it \<Rightarrow> Inr (m, it, False)))"

section \<open>Helpers of the tree\<close>

text \<open>
  \<^verbatim>\<open>is_in\<close> compares the result of \<^verbatim>\<open>std::find\<close> with \<^verbatim>\<open>end()\<close> using
  \<^verbatim>\<open>==\<close>: it is true when the value is absent.
\<close>

definition is_in :: "'a \<Rightarrow> 'a list \<Rightarrow> bool" where
  "is_in value container = (value \<notin> set container)"

definition insert_unique :: "'a \<Rightarrow> 'a list \<Rightarrow> 'a list" where
  "insert_unique value container =
     (if value \<notin> set container then container @ [value] else container)"

definition unique_copy :: "'a list \<Rightarrow> 'a list" where
  "unique_copy input =
     foldl (\<lambda>output value. if is_in value output then output @ [value] else output) [] input"

definition exclude_copy :: "'a \<Rightarrow> 'a list \<Rightarrow> 'a list" where
  "exclude_copy exclude input = filter (\<lambda>value. value \<noteq> exclude) input"

section \<open>Pin\<close>

text \<open>
  A \<^verbatim>\<open>Tree::Pin\<close> holds a pointer to the store, which \<^verbatim>\<open>detach\<close> and the move
  constructor set to null, and the self-loop edge of its key. The store is passed to
  the constructor and the destructor; \<open>pin_attached\<close> says whether the pointer is set.
\<close>

record 'k pin =
  pin_attached :: bool
  pin_edge :: "'k \<times> 'k"

definition Pin ::
  "('k, 'p) managed_vertex_map \<Rightarrow> bool \<Rightarrow> 'k \<Rightarrow> error + (('k, 'p) managed_vertex_map \<times> 'k pin)"
where
  "Pin m attached key =
     (let p = \<lparr>pin_attached = attached, pin_edge = (key, key)\<rparr>
      in if attached
         then (case insert_edge m (pin_edge p) of
                 Inl e \<Rightarrow> Inl e
               | Inr r \<Rightarrow> Inr (fst r, p))
         else Inr (m, p))"

definition Pin_destroy ::
  "('k, 'p) managed_vertex_map \<Rightarrow> 'k pin \<Rightarrow> error + ('k, 'p) managed_vertex_map" where
  "Pin_destroy m p = (if pin_attached p then erase_edge m (pin_edge p) else Inr m)"

definition detach :: "'k pin \<Rightarrow> 'k pin" where
  "detach p = p\<lparr>pin_attached := False\<rparr>"

text \<open>The move constructor: the new pin, and the pin that was moved from.\<close>

definition Pin_move :: "'k pin \<Rightarrow> 'k pin \<times> 'k pin" where
  "Pin_move other =
     (\<lparr>pin_attached = pin_attached other, pin_edge = pin_edge other\<rparr>,
      other\<lparr>pin_attached := False\<rparr>)"

definition pin_key :: "'k pin \<Rightarrow> 'k" where
  "pin_key p = fst (pin_edge p)"

section \<open>Version mapping\<close>

text \<open>
  \<^verbatim>\<open>Tree::Mapping\<close> is a \<^verbatim>\<open>std::map\<close> from vertex iterator to vertex iterator whose
  comparison reads the keys the two iterators point at, \<^verbatim>\<open>a->first < b->first\<close>. An
  iterator can be read when it is not \<^verbatim>\<open>end()\<close> and the vertex at its key is stored.
\<close>

definition dereferenceable :: "('k, 'p) managed_vertex_map \<Rightarrow> 'k option \<Rightarrow> bool" where
  "dereferenceable m it = (case it of None \<Rightarrow> False | Some k \<Rightarrow> at m k \<noteq> None)"

text \<open>
  \<open>mp\<close> is the member \<^verbatim>\<open>map_\<close>, with the iterators as keys. A lookup in the empty map
  compares nothing. A lookup in a map that is not empty compares its argument with keys
  of the map; which of them is left to the search tree of the library, which requires
  the comparison to be an ordering of all the keys. The lookup is therefore taken to
  be defined when the argument and every key of the map can be read.
\<close>

type_synonym 'k mapping = "('k option \<times> 'k option) list"

definition comparable :: "('k, 'p) managed_vertex_map \<Rightarrow> 'k mapping \<Rightarrow> 'k option \<Rightarrow> bool" where
  "comparable m mp input =
     (mp = [] \<or> (dereferenceable m input \<and> list_all (dereferenceable m) (map fst mp)))"

text \<open>\<^verbatim>\<open>Mapping::set(input, output)\<close>: \<^verbatim>\<open>map_[input] = output\<close> when the two differ.\<close>

definition Mapping_set ::
  "('k, 'p) managed_vertex_map \<Rightarrow> 'k mapping \<Rightarrow> 'k option \<Rightarrow> 'k option \<Rightarrow> error + 'k mapping"
where
  "Mapping_set m mp input output =
     (if input \<noteq> output
      then (if comparable m mp input then Inr (AList.update input output mp)
            else Inl InvalidIterator)
      else Inr mp)"

text \<open>
  \<^verbatim>\<open>Mapping::get(input)\<close>: \<^verbatim>\<open>map_.find(input)\<close>, and for an entry that is found
  \<^verbatim>\<open>vertices().find(output->first)\<close>, which reads the recorded iterator.
\<close>

definition Mapping_get ::
  "('k, 'p) managed_vertex_map \<Rightarrow> 'k mapping \<Rightarrow> 'k option \<Rightarrow> error + 'k option" where
  "Mapping_get m mp input =
     (if comparable m mp input
      then (case map_of mp input of
              None \<Rightarrow> Inr input
            | Some output \<Rightarrow>
                (case output of
                   None \<Rightarrow> Inl InvalidIterator
                 | Some k' \<Rightarrow>
                     if dereferenceable m output then Inr (find_vertex m k')
                     else Inl InvalidIterator))
      else Inl InvalidIterator)"

section \<open>Tree\<close>

text \<open>
  A \<^verbatim>\<open>Tree\<close> shares the store (the member \<^verbatim>\<open>vertices_\<close>, here \<open>t_vertices\<close>) and
  holds the iterator \<^verbatim>\<open>root_\<close> (\<open>t_root\<close>). \<^verbatim>\<open>Tree\<close> is a template over the
  store; the member functions it calls are those of \<^verbatim>\<open>ManagedVertexMap\<close>, and
  for single edges those of \<^verbatim>\<open>Forest\<close>. It inserts a vertex on its own, which is
  stored under its \<^verbatim>\<open>self_edge()\<close> as in \<^verbatim>\<open>Forest::insert(node)\<close>.
\<close>

record ('k, 'p) tree =
  t_vertices :: "('k, 'p) managed_vertex_map"
  t_root :: "'k option"


text \<open>\<^verbatim>\<open>Tree::root(value)\<close>: the setter, which erases the previous root.\<close>

definition root_set ::
  "(('k::linorder, 'p) vertex \<Rightarrow> 'k) \<Rightarrow> ('k, 'p) tree \<Rightarrow> 'k option \<Rightarrow> error + ('k, 'p) tree"
where
  "root_set self_edge t value =
     (let last_root = t_root t
      in case erase_vertex self_edge (t_vertices t) last_root of
           Inl e \<Rightarrow> Inl e
         | Inr r \<Rightarrow> Inr \<lparr>t_vertices = fst r, t_root = value\<rparr>)"

text \<open>
  The lambda \<^verbatim>\<open>enqueue_parents\<close> of \<^verbatim>\<open>Tree::update\<close>. The queue holds pairs of
  vertex iterators that the two assertions have found valid; it keeps their keys.
\<close>

definition enqueue_parents ::
  "(('k, 'p) vertex \<Rightarrow> 'k) \<Rightarrow> ('k, 'p) tree \<Rightarrow> ('k, 'p) vertex \<Rightarrow> ('k \<times> 'k) list
     \<Rightarrow> 'k \<times> 'k \<Rightarrow> error + ('k \<times> 'k) list" where
  "enqueue_parents self_edge t value to_visit edge =
     (let child = find_vertex (t_vertices t) (fst edge);
          parent = find_vertex (t_vertices t) (snd edge)
      in if parent = None then Inl AssertionFailure
         else if child = None then Inl AssertionFailure
         else
           (let grandparents = count_key (t_vertices t) (snd edge)
            in if child \<noteq> t_root t \<and> snd edge \<noteq> self_edge value \<and>
                  snd edge \<notin> set (edges value) \<and>
                  (grandparents \<noteq> 0 \<or> (grandparents = 0 \<and> parent = t_root t))
               then Inr (to_visit @ [(fst edge, snd edge)])
               else Inr to_visit))"

text \<open>\<^verbatim>\<open>std::for_each(range.first, range.second, enqueue_parents)\<close>\<close>

fun for_each_enqueue ::
  "(('k, 'p) vertex \<Rightarrow> 'k) \<Rightarrow> ('k, 'p) tree \<Rightarrow> ('k, 'p) vertex \<Rightarrow> ('k \<times> 'k) list
     \<Rightarrow> ('k \<times> 'k) list \<Rightarrow> error + ('k \<times> 'k) list" where
  "for_each_enqueue self_edge t value to_visit [] = Inr to_visit"
| "for_each_enqueue self_edge t value to_visit (edge # rng) =
     (case enqueue_parents self_edge t value to_visit edge of
        Inl e \<Rightarrow> Inl e
      | Inr to_visit' \<Rightarrow> for_each_enqueue self_edge t value to_visit' rng)"

text \<open>The local variables of \<^verbatim>\<open>Tree::update\<close> that its loop changes, with the tree.\<close>

record ('k, 'p) update_state =
  u_tree :: "('k, 'p) tree"
  u_pins :: "'k pin list"
  u_updated :: "'k mapping"
  u_to_visit :: "('k \<times> 'k) list"

text \<open>
  \<^verbatim>\<open>pins.emplace_back(Pin(vertices_.get(), target_child->first))\<close>, unless the last
  pin already has that key. The temporary is moved into the vector and destroyed
  detached.
\<close>

definition emplace_pin ::
  "('k, 'p) managed_vertex_map \<Rightarrow> 'k pin list \<Rightarrow> 'k
     \<Rightarrow> error + (('k, 'p) managed_vertex_map \<times> 'k pin list)" where
  "emplace_pin m pins key =
     (if pins = [] \<or> key \<noteq> pin_key (last pins)
      then (case Pin m True key of
              Inl e \<Rightarrow> Inl e
            | Inr r \<Rightarrow> Inr (fst r, pins @ [fst (Pin_move (snd r))]))
      else Inr (m, pins))"

text \<open>One iteration of the loop of \<^verbatim>\<open>Tree::update\<close> on a queue that is not empty.\<close>

definition update_step ::
  "(('k::linorder, 'p) vertex \<Rightarrow> 'k) \<Rightarrow> ('k, 'p) vertex \<Rightarrow> ('k, 'p) update_state
     \<Rightarrow> error + ('k, 'p) update_state" where
  "update_step self_edge value s =
     (case u_to_visit s of
        [] \<Rightarrow> Inr s
      | next_pair # to_visit \<Rightarrow>
          (let source_child = fst next_pair;
               source_parent = snd next_pair;
               t = u_tree s
           in case Mapping_get (t_vertices t) (u_updated s) (Some source_parent) of
                Inl e \<Rightarrow> Inl e
              | Inr target_parent \<Rightarrow>
           (case Mapping_get (t_vertices t) (u_updated s) (Some source_child) of
                Inl e \<Rightarrow> Inl e
              | Inr target_child \<Rightarrow>
           (case (target_parent, target_child) of
              (Some tp, Some tc) \<Rightarrow>
                (case emplace_pin (t_vertices t) (u_pins s) tc of
                   Inl e \<Rightarrow> Inl e
                 | Inr pinned \<Rightarrow>
                (case at (fst pinned) tp of
                   None \<Rightarrow> Inl InvalidIterator
                 | Some tpv \<Rightarrow>
                (let children = insert_unique tc (exclude_copy source_child (edges tpv));
                     vertex = tpv\<lparr>edges := children\<rparr>;
                     inserted_parent = insert_vertex (fst pinned) (self_edge vertex, vertex);
                     t1 = t\<lparr>t_vertices := fst inserted_parent\<rparr>;
                     rng = equal_range (t_vertices t1) source_parent
                 in if t_root t1 = target_parent
                    then (case root_set self_edge t1 (fst (snd inserted_parent)) of
                            Inl e \<Rightarrow> Inl e
                          | Inr t2 \<Rightarrow>
                              Inr (s\<lparr>u_tree := t2, u_pins := snd pinned,
                                     u_to_visit := to_visit\<rparr>))
                    else
                      (case for_each_enqueue self_edge t1 value to_visit rng of
                         Inl e \<Rightarrow> Inl e
                       | Inr to_visit' \<Rightarrow>
                           if length to_visit' = length to_visit
                           then
                             (case erase_vertex self_edge (t_vertices t1)
                                     (fst (snd inserted_parent)) of
                                Inl e \<Rightarrow> Inl e
                              | Inr r \<Rightarrow>
                                 (case Mapping_set (fst r) (u_updated s) (Some source_parent)
                                         target_parent of
                                    Inl e \<Rightarrow> Inl e
                                  | Inr updated \<Rightarrow>
                                      Inr \<lparr>u_tree = t1\<lparr>t_vertices := fst r\<rparr>,
                                           u_pins = snd pinned, u_updated = updated,
                                           u_to_visit = to_visit'\<rparr>))
                           else
                             (case Mapping_set (t_vertices t1) (u_updated s) (Some source_parent)
                                     (fst (snd inserted_parent)) of
                                Inl e \<Rightarrow> Inl e
                              | Inr updated \<Rightarrow>
                                  Inr \<lparr>u_tree = t1, u_pins = snd pinned,
                                       u_updated = updated, u_to_visit = to_visit'\<rparr>)))))
            | _ \<Rightarrow> Inr (s\<lparr>u_to_visit := to_visit\<rparr>)))))"

text \<open>
  \<^verbatim>\<open>while (!to_visit.empty())\<close>. Nothing bounds the number of iterations, so the
  loop is a partial function: \<open>None\<close> is a loop that never ends.
\<close>

partial_function (option) update_loop ::
  "(('k::linorder, 'p) vertex \<Rightarrow> 'k) \<Rightarrow> ('k, 'p) vertex \<Rightarrow> ('k, 'p) update_state
     \<Rightarrow> (error + ('k, 'p) update_state) option" where
  "update_loop self_edge value s =
     (if u_to_visit s = [] then Some (Inr s)
      else (case update_step self_edge value s of
              Inl e \<Rightarrow> Some (Inl e)
            | Inr s' \<Rightarrow> update_loop self_edge value s'))"

declare update_loop.simps [code]

text \<open>
  The destruction of the vector \<^verbatim>\<open>pins\<close> when \<^verbatim>\<open>Tree::update\<close> returns, first
  element first.
\<close>

fun destroy_pins ::
  "('k, 'p) managed_vertex_map \<Rightarrow> 'k pin list \<Rightarrow> error + ('k, 'p) managed_vertex_map" where
  "destroy_pins m [] = Inr m"
| "destroy_pins m (p # pins) =
     (case Pin_destroy m p of
        Inl e \<Rightarrow> Inl e
      | Inr m' \<Rightarrow> destroy_pins m' pins)"

text \<open>\<^verbatim>\<open>Tree::update(source, value)\<close>: the tree after the call and the iterator returned.\<close>

definition update ::
  "(('k::linorder, 'p) vertex \<Rightarrow> 'k) \<Rightarrow> ('k, 'p) tree \<Rightarrow> 'k option \<Rightarrow> ('k, 'p) vertex
     \<Rightarrow> (error + (('k, 'p) tree \<times> 'k option)) option" where
  "update self_edge t source value =
     (let inserted_vertex = insert_vertex (t_vertices t) (self_edge value, value);
          target = fst (snd inserted_vertex);
          t1 = t\<lparr>t_vertices := fst inserted_vertex\<rparr>
      in case Mapping_set (t_vertices t1) [] source target of
           Inl e \<Rightarrow> Some (Inl e)
         | Inr updated \<Rightarrow>
      (case source of
           None \<Rightarrow> Some (Inl InvalidIterator)
         | Some source_key \<Rightarrow>
      (case for_each_enqueue self_edge t1 value [] (equal_range (t_vertices t1) source_key) of
           Inl e \<Rightarrow> Some (Inl e)
         | Inr to_visit \<Rightarrow>
      (case (if source = t_root t1 then root_set self_edge t1 target else Inr t1) of
           Inl e \<Rightarrow> Some (Inl e)
         | Inr t2 \<Rightarrow>
      (case update_loop self_edge value
              \<lparr>u_tree = t2, u_pins = [], u_updated = updated, u_to_visit = to_visit\<rparr> of
           None \<Rightarrow> None
         | Some (Inl e) \<Rightarrow> Some (Inl e)
         | Some (Inr s) \<Rightarrow>
             (case destroy_pins (t_vertices (u_tree s)) (u_pins s) of
                Inl e \<Rightarrow> Some (Inl e)
              | Inr m \<Rightarrow> Some (Inr ((u_tree s)\<lparr>t_vertices := m\<rparr>, target))))))))"

text \<open>\<^verbatim>\<open>Tree::insert(parent, edge)\<close>: the child is given by its key.\<close>

definition insert_key ::
  "(('k::linorder, 'p) vertex \<Rightarrow> 'k) \<Rightarrow> ('k, 'p) tree \<Rightarrow> 'k option \<Rightarrow> 'k
     \<Rightarrow> (error + (('k, 'p) tree \<times> 'k option)) option" where
  "insert_key self_edge t parent edge =
     (case parent of
        None \<Rightarrow> Some (Inl InvalidIterator)
      | Some k \<Rightarrow>
          (case at (t_vertices t) k of
             None \<Rightarrow> Some (Inl InvalidIterator)
           | Some pv \<Rightarrow>
               (let children = insert_unique edge (unique_copy (edges pv));
                    vertex = pv\<lparr>edges := children\<rparr>
                in update self_edge t parent vertex)))"

text \<open>\<^verbatim>\<open>Tree::insert(parent, child)\<close> with the child given by an iterator.\<close>

definition insert_iterator ::
  "(('k::linorder, 'p) vertex \<Rightarrow> 'k) \<Rightarrow> ('k, 'p) tree \<Rightarrow> 'k option \<Rightarrow> 'k option
     \<Rightarrow> (error + (('k, 'p) tree \<times> 'k option)) option" where
  "insert_iterator self_edge t parent child =
     (case child of
        None \<Rightarrow> Some (Inl InvalidIterator)
      | Some c \<Rightarrow> insert_key self_edge t parent c)"


text \<open>\<^verbatim>\<open>Tree::erase(parent, child)\<close>\<close>

definition erase_child ::
  "(('k::linorder, 'p) vertex \<Rightarrow> 'k) \<Rightarrow> ('k, 'p) tree \<Rightarrow> 'k option \<Rightarrow> 'k option
     \<Rightarrow> (error + (('k, 'p) tree \<times> 'k option)) option" where
  "erase_child self_edge t parent child =
     (case (parent, child) of
        (Some k, Some c) \<Rightarrow>
          (case at (t_vertices t) k of
             None \<Rightarrow> Some (Inl InvalidIterator)
           | Some pv \<Rightarrow>
               (let children = exclude_copy c (edges pv);
                    vertex = pv\<lparr>edges := children\<rparr>
                in update self_edge t parent vertex))
      | _ \<Rightarrow> Some (Inl InvalidIterator))"

section \<open>The order of the cascading erase\<close>





section \<open>One step of the cascading erase\<close>

text \<open>
  The store and the iterators pushed by one iteration of the loop of
  \<^verbatim>\<open>erase(edge_iterator)\<close> that erases the edge \<open>e\<close>. The proofs about the loop
  go through these two functions.
\<close>

definition cascade_store ::
  "('k, 'p) managed_vertex_map \<Rightarrow> 'k \<times> 'k \<Rightarrow> ('k, 'p) managed_vertex_map" where
  "cascade_store m e =
     (let m1 = m\<lparr>m_edges := remove1 e (m_edges m)\<rparr>
      in if count_key m1 (fst e) = 0
         then (case at m1 (fst e) of
                 None \<Rightarrow> m1
               | Some vertex \<Rightarrow> m1\<lparr>m_vertices := erase_key (fst e) (m_vertices m1)\<rparr>)
         else m1)"

definition cascade_push ::
  "('k, 'p) managed_vertex_map \<Rightarrow> 'k \<times> 'k \<Rightarrow> 'k edge_iterator list" where
  "cascade_push m e =
     (let m1 = m\<lparr>m_edges := remove1 e (m_edges m)\<rparr>
      in if count_key m1 (fst e) = 0
         then (case at m1 (fst e) of
                 None \<Rightarrow> []
               | Some vertex \<Rightarrow> find_edges m1 (fst e) [] (edges vertex))
         else [])"

section \<open>Example stores\<close>

text \<open>
  Vertices with natural numbers as keys and payloads. \<open>content_key\<close> derives the key
  of a vertex from its payload and its child keys, so that a vertex with another child
  list has another key; \<open>store_of\<close> inserts a list of vertices into the empty store.
\<close>

definition content_key :: "(nat, nat) vertex \<Rightarrow> nat" where
  "content_key v = foldl (\<lambda>a c. 10 * a + c) (payload v) (edges v)"

definition node :: "nat \<Rightarrow> nat list \<Rightarrow> (nat, nat) vertex" where
  "node p cs = \<lparr>payload = p, edges = cs\<rparr>"

definition store_of :: "(nat, nat) vertex list \<Rightarrow> (nat, nat) managed_vertex_map" where
  "store_of vs =
     foldl (\<lambda>m v. fst (insert_vertex m (content_key v, v)))
       \<lparr>m_vertices = [], m_edges = []\<rparr> vs"

text \<open>
  The store of the scenario: the root 343 has the children 24 and 3, and the vertex 24
  has the child 4.
\<close>

definition scenario_store :: "(nat, nat) managed_vertex_map" where
  "scenario_store = store_of [node 4 [], node 3 [], node 2 [4], node 1 [24, 3]]"

text \<open>
  A store in which the vertex 1 is reached from the root 641 on two paths, through
  21 and through 31.
\<close>

definition diamond_store :: "(nat, nat) managed_vertex_map" where
  "diamond_store = store_of [node 1 [], node 2 [1], node 3 [1], node 4 [21, 31]]"

text \<open>
  A store with the root 24, its child 4 and a second vertex 5; and the same store after
  the vertex 24 has been inserted once more.
\<close>

definition shared_store :: "(nat, nat) managed_vertex_map" where
  "shared_store = store_of [node 4 [], node 2 [4], node 5 []]"

definition twice_store :: "(nat, nat) managed_vertex_map" where
  "twice_store = store_of [node 4 [], node 2 [4], node 2 [4], node 5 []]"




section \<open>Reference-count invariants\<close>

text \<open>
  \<open>refcount_ok\<close>: the edge multimap holds, for every stored vertex and every element of
  its child list, one edge from that child to the vertex, and nothing else.
  \<open>distinct_children\<close>: no stored vertex lists a child twice.
\<close>

definition refcount_ok :: "('k, 'p) managed_vertex_map \<Rightarrow> bool" where
  "refcount_ok m =
     (\<forall>c p. count_list (m_edges m) (c, p) =
              (case at m p of None \<Rightarrow> 0 | Some v \<Rightarrow> count_list (edges v) c))"

definition distinct_children :: "('k, 'p) managed_vertex_map \<Rightarrow> bool" where
  "distinct_children m = (\<forall>k v. at m k = Some v \<longrightarrow> distinct (edges v))"

text \<open>
  The invariant of the cascading erase: the edges are those of the stored vertices
  outside \<open>S\<close>, and in addition the edges \<open>X\<close> that are still to be erased. The keys
  in \<open>S\<close> are not the child of any edge.
\<close>

definition balanced :: "'k set \<Rightarrow> ('k \<times> 'k) list \<Rightarrow> ('k, 'p) managed_vertex_map \<Rightarrow> bool" where
  "balanced S X m =
     ((\<forall>k\<in>S. count_key m k = 0) \<and>
      (\<forall>c p. count_list (m_edges m) (c, p) =
               (if p \<in> S then 0
                else (case at m p of None \<Rightarrow> 0 | Some v \<Rightarrow> count_list (edges v) c))
               + count_list X (c, p)))"

text \<open>\<open>erased_by m m'\<close>: going from \<open>m\<close> to \<open>m'\<close> no count has grown, and the vertices
  that are gone are those whose count fell to zero.\<close>

definition erased_by ::
  "('k, 'p) managed_vertex_map \<Rightarrow> ('k, 'p) managed_vertex_map \<Rightarrow> bool" where
  "erased_by m m' =
     (\<forall>x. count_key m' x \<le> count_key m x \<and>
          at m' x = (if 0 < count_key m x \<and> count_key m' x = 0 then None else at m x))"

text \<open>
  The stores that are built from the empty store by inserting vertices with
  duplicate-free child lists under keys that are not occupied, and by erasing vertices.
\<close>

inductive store_reachable ::
  "(('k::linorder, 'p) vertex \<Rightarrow> 'k) \<Rightarrow> ('k, 'p) managed_vertex_map \<Rightarrow> bool"
  for self_edge :: "('k::linorder, 'p) vertex \<Rightarrow> 'k"
where
  reachable_empty: "store_reachable self_edge \<lparr>m_vertices = [], m_edges = []\<rparr>"
| reachable_insert:
    "store_reachable self_edge m \<Longrightarrow> at m (self_edge v) = None \<Longrightarrow> distinct (edges v) \<Longrightarrow>
       store_reachable self_edge (fst (insert_vertex m (self_edge v, v)))"
| reachable_erase:
    "store_reachable self_edge m \<Longrightarrow> erase_vertex self_edge m pos = Inr (m', it) \<Longrightarrow>
       store_reachable self_edge m'"

section \<open>Reachability from the live roots\<close>

text \<open>
  \<open>children_rel m\<close> relates a stored vertex to the keys in its child list.
  \<open>garbage_free L m\<close>: every stored vertex is reached from a key in \<open>L\<close>, the set of
  the live roots, along the child lists of the stored vertices.
\<close>

definition children_rel :: "('k, 'p) managed_vertex_map \<Rightarrow> ('k \<times> 'k) set" where
  "children_rel m = {(p, c). \<exists>v. at m p = Some v \<and> c \<in> set (edges v)}"

definition garbage_free :: "'k set \<Rightarrow> ('k, 'p) managed_vertex_map \<Rightarrow> bool" where
  "garbage_free L m = (\<forall>k. at m k \<noteq> None \<longrightarrow> (\<exists>r\<in>L. (r, k) \<in> (children_rel m)\<^sup>*))"

section \<open>Lookup and counting after the store operations\<close>

lemma at_insert_vertex:
  "at (fst (insert_vertex m value)) k =
     (if k = fst value \<and> at m k = None then Some (snd value) else at m k)"
proof -
  have "map_of (insort_key fst value vs) k =
          (if k = fst value \<and> map_of vs k = None then Some (snd value) else map_of vs k)"
    if "map_of vs (fst value) = None" for vs :: "('a \<times> ('a, 'b) vertex) list"
    using that by (induction vs) (auto split: if_splits)
  then show ?thesis
    by (auto simp: insert_vertex_def at_def Let_def)
qed

lemma length_filter_links:
  "length (filter ((\<lambda>e. fst e = c) \<circ> (\<lambda>link. (link, k))) cs) = count_list cs c"
  by (induction cs) auto

lemma m_edges_insert_vertex:
  "m_edges (fst (insert_vertex m value)) =
     m_edges m @ map (\<lambda>link. (link, fst value)) (edges (snd value))"
  by (simp add: insert_vertex_def Let_def)

lemma count_key_insert_vertex:
  "count_key (fst (insert_vertex m value)) c = count_key m c + count_list (edges (snd value)) c"
  by (simp add: count_key_def m_edges_insert_vertex length_filter_links)

lemma at_erase_key:
  "map_of (erase_key k vs) x = (if x = k then None else map_of vs x)"
  by (induction vs) (auto simp: erase_key_def)

lemma at_update_edges [simp]: "at (m\<lparr>m_edges := es\<rparr>) = at m"
  by (auto simp: at_def)

lemma at_update_erase_key [simp]:
  "at (m\<lparr>m_vertices := erase_key k vs\<rparr>) x = (if x = k then None else map_of vs x)"
  by (auto simp: at_def at_erase_key)

lemma count_key_update_vertices [simp]: "count_key (m\<lparr>m_vertices := vs\<rparr>) = count_key m"
  by (auto simp: count_key_def)

lemma count_list_remove1:
  "count_list (remove1 e xs) x = (if x = e then count_list xs x - 1 else count_list xs x)"
  by (induction xs) auto

lemma count_key_remove1:
  assumes "e \<in> set (m_edges m)"
  shows "count_key (m\<lparr>m_edges := remove1 e (m_edges m)\<rparr>) c =
     (if fst e = c then count_key m c - 1 else count_key m c)"
proof -
  have "e \<in> set xs \<Longrightarrow> length (filter (\<lambda>x. fst x = c) (remove1 e xs)) =
     (if fst e = c then length (filter (\<lambda>x. fst x = c) xs) - 1
      else length (filter (\<lambda>x. fst x = c) xs))" for xs
  proof (induction xs)
    case (Cons a xs)
    have "e \<in> set xs \<Longrightarrow> 0 < length (filter (\<lambda>x. fst x = fst e) xs)"
      by (auto simp: filter_empty_conv)
    with Cons show ?case by auto
  qed simp
  from this [OF assms] show ?thesis by (simp add: count_key_def)
qed

lemma count_key_pos: "e \<in> set (m_edges m) \<Longrightarrow> 0 < count_key m (fst e)"
  by (auto simp: count_key_def filter_empty_conv)

section \<open>The loop of the cascading erase, step by step\<close>

lemma erase_edge_at_step:
  "e \<in> set (m_edges m) \<Longrightarrow>
     erase_edge_at m (At e # q) = erase_edge_at (cascade_store m e) (q @ cascade_push m e)"
  by (simp add: cascade_store_def cascade_push_def Let_def split: option.splits)


lemma cascade_induct [case_names Nil End Gone Absent Step]:
  assumes "\<And>m. P m []"
    and "\<And>m q. P m (End # q)"
    and "\<And>m e q. P m (Gone e # q)"
    and "\<And>m e q. e \<notin> set (m_edges m) \<Longrightarrow> P m (At e # q)"
    and "\<And>m e q. e \<in> set (m_edges m) \<Longrightarrow> P (cascade_store m e) (q @ cascade_push m e)
           \<Longrightarrow> P m (At e # q)"
  shows "P m q"
proof (induction m q rule: erase_edge_at.induct)
  case (4 m e to_visit)
  show ?case
  proof (cases "e \<in> set (m_edges m)")
    case False
    then show ?thesis by (rule assms(4))
  next
    case True
    let ?m1 = "m\<lparr>m_edges := remove1 e (m_edges m)\<rparr>"
    have "P (cascade_store m e) (to_visit @ cascade_push m e)"
    proof (cases "count_key ?m1 (fst e) = 0")
      case False
      with "4.IH"(3) [OF _ refl refl False] True show ?thesis
        by (simp add: cascade_store_def cascade_push_def)
    next
      case zero: True
      show ?thesis
      proof (cases "at ?m1 (fst e)")
        case None
        with "4.IH"(1) [OF _ refl refl zero None] True zero show ?thesis
          by (simp add: cascade_store_def cascade_push_def)
      next
        case (Some vertex)
        with "4.IH"(2) [OF _ refl refl zero Some] True zero show ?thesis
          by (simp add: cascade_store_def cascade_push_def)
      qed
    qed
    with True show ?thesis by (rule assms(5))
  qed
qed (auto intro: assms)

lemma m_edges_cascade_store [simp]: "m_edges (cascade_store m e) = remove1 e (m_edges m)"
  by (simp add: cascade_store_def Let_def split: option.splits)

lemma count_key_cascade_store:
  "e \<in> set (m_edges m) \<Longrightarrow>
     count_key (cascade_store m e) c = (if fst e = c then count_key m c - 1 else count_key m c)"
  using count_key_remove1 [of e m c] by (simp add: count_key_def)

lemma at_cascade_store:
  "e \<in> set (m_edges m) \<Longrightarrow>
     at (cascade_store m e) x = (if x = fst e \<and> count_key m (fst e) = 1 then None else at m x)"
  using count_key_pos [of e m]
  by (auto simp: cascade_store_def Let_def count_key_remove1 at_def at_erase_key
      split: option.splits)

lemma cascade_push_eq:
  "e \<in> set (m_edges m) \<Longrightarrow>
     cascade_push m e =
       (if count_key m (fst e) = 1
        then (case at m (fst e) of
                None \<Rightarrow> []
              | Some vertex \<Rightarrow>
                  find_edges (m\<lparr>m_edges := remove1 e (m_edges m)\<rparr>) (fst e) [] (edges vertex))
        else [])"
  using count_key_pos [of e m]
  by (auto simp: cascade_push_def Let_def count_key_remove1 split: option.splits)

text \<open>The cascade removes edges and vertices, and adds none.\<close>

lemma erase_edge_at_decreasing:
  "erase_edge_at m q = Inr m' \<Longrightarrow>
     (\<forall>e. count_list (m_edges m') e \<le> count_list (m_edges m) e) \<and>
     (\<forall>c. count_key m' c \<le> count_key m c) \<and>
     (\<forall>x. at m' x = None \<or> at m' x = at m x)"
proof (induction m q rule: cascade_induct)
  case (Step m e q)
  from Step.prems have "erase_edge_at (cascade_store m e) (q @ cascade_push m e) = Inr m'"
    unfolding erase_edge_at_step [OF Step.hyps] .
  from Step.IH [OF this] Step.hyps show ?case
    apply (intro conjI allI)
    subgoal for e'
      by (drule conjunct1, drule spec [of _ e']) (simp add: count_list_remove1 split: if_splits)
    subgoal for c
      by (drule conjunct2, drule conjunct1, drule spec [of _ c])
         (simp add: count_key_cascade_store split: if_splits)
    subgoal for x
      by (drule conjunct2, drule conjunct2, drule spec [of _ x])
         (auto simp: at_cascade_store split: if_splits)
    done
qed auto

text \<open>
  A vertex is erased by the cascade exactly when the last edge naming it as child is
  removed.
\<close>

lemma erase_edge_at_erased:
  "erase_edge_at m q = Inr m' \<Longrightarrow>
     at m' x = (if 0 < count_key m x \<and> count_key m' x = 0 then None else at m x)"
proof (induction m q rule: cascade_induct)
  case (Step m e q)
  from Step.prems
  have run: "erase_edge_at (cascade_store m e) (q @ cascade_push m e) = Inr m'"
    unfolding erase_edge_at_step [OF Step.hyps] .
  note IH = Step.IH [OF run]
  from erase_edge_at_decreasing [OF run]
  have le: "count_key m' x \<le> count_key (cascade_store m e) x" by blast
  show ?case
    using IH le Step.hyps count_key_pos [OF Step.hyps]
    by (auto simp: at_cascade_store count_key_cascade_store split: if_splits)
qed auto

section \<open>Erasing a referenced vertex\<close>

text \<open>
  C5. \<^verbatim>\<open>erase(iterator)\<close> on a vertex whose key is the child of some edge does not
  fail: it erases nothing, leaves the store as it is and returns the iterator it was
  given. Its only assertion compares the vertex's own key with the key it is stored
  under.
\<close>

theorem erase_vertex_referenced:
  "at m k = Some v \<Longrightarrow> self_edge v = k \<Longrightarrow> count_key m k \<noteq> 0 \<Longrightarrow>
     erase_vertex self_edge m (Some k) = Inr (m, Some k)"
  by (simp add: erase_vertex_def)

theorem erase_vertex_referenced_witness:
  "erase_vertex content_key (store_of [node 4 [], node 2 [4]]) (Some 4)
     = Inr (store_of [node 4 [], node 2 [4]], Some 4)"
  using erase_vertex_referenced
          [of "store_of [node 4 [], node 2 [4]]" 4 "node 4 []" content_key]
  by (simp add: store_of_def insert_vertex_def at_def content_key_def node_def count_key_def)

text \<open>
  The vertex 4 is the child of the vertex 24. Erasing it reports no error, and the
  store afterwards is the store before.
\<close>

theorem erase_vertex_silent_counterexample:
  "count_key (store_of [node 4 [], node 2 [4]]) 4 = 1 \<and>
   store_of [node 4 [], node 2 [4]]
     = \<lparr>m_vertices = [(4, node 4 []), (24, node 2 [4])], m_edges = [(4, 24)]\<rparr> \<and>
   erase_vertex content_key (store_of [node 4 [], node 2 [4]]) (Some 4)
     = Inr (\<lparr>m_vertices = [(4, node 4 []), (24, node 2 [4])], m_edges = [(4, 24)]\<rparr>,
            Some 4)"
  by code_simp

section \<open>Version mapping\<close>




section \<open>Inserting under an occupied key\<close>

text \<open>
  C10. When the key of the inserted vertex is occupied, \<^verbatim>\<open>insert\<close> leaves the stored
  vertices as they are and reports that nothing was inserted, yet it adds one edge for
  every element of the child list: the count of a child grows by the number of times
  it is listed. Inserting a vertex a second time therefore adds its edges a second
  time: after the two insertions the count of a child is what it was before them plus
  twice the number of times it is listed, which is twice the count after the first
  insertion for the children that nothing else referred to.
\<close>

theorem insert_vertex_occupied:
  "at m k \<noteq> None \<Longrightarrow>
     m_vertices (fst (insert_vertex m (k, v))) = m_vertices m \<and>
     snd (insert_vertex m (k, v)) = (Some k, False) \<and>
     m_edges (fst (insert_vertex m (k, v))) = m_edges m @ map (\<lambda>c. (c, k)) (edges v) \<and>
     (\<forall>c. count_key (fst (insert_vertex m (k, v))) c = count_key m c + count_list (edges v) c) \<and>
     (\<forall>m0 c. m = fst (insert_vertex m0 (k, v)) \<longrightarrow>
        count_key (fst (insert_vertex m (k, v))) c = count_key m0 c + 2 * count_list (edges v) c \<and>
        (count_key m0 c = 0 \<longrightarrow> count_key (fst (insert_vertex m (k, v))) c = 2 * count_key m c))"
  by (auto simp: count_key_insert_vertex m_edges_insert_vertex)
     (auto simp: insert_vertex_def Let_def)

theorem insert_vertex_occupied_witness:
  "at (store_of [node 4 [], node 2 [4]]) 24 \<noteq> None \<and>
   m_vertices (fst (insert_vertex (store_of [node 4 [], node 2 [4]]) (24, node 2 [4])))
     = [(4, node 4 []), (24, node 2 [4])] \<and>
   m_edges (fst (insert_vertex (store_of [node 4 [], node 2 [4]]) (24, node 2 [4])))
     = [(4, 24), (4, 24)] \<and>
   count_key (store_of [node 4 []]) 4 = 0 \<and>
   count_key (store_of [node 4 [], node 2 [4]]) 4 = 1 \<and>
   count_key (fst (insert_vertex (store_of [node 4 [], node 2 [4]]) (24, node 2 [4]))) 4 = 2"
proof -
  have occupied: "at (store_of [node 4 [], node 2 [4]]) 24 \<noteq> None"
    by (simp add: store_of_def insert_vertex_def at_def content_key_def node_def)
  have built: "store_of [node 4 [], node 2 [4]]
                 = fst (insert_vertex (store_of [node 4 []]) (24, node 2 [4]))"
    by (simp add: store_of_def content_key_def node_def)
  show ?thesis
    using insert_vertex_occupied [OF occupied, of "node 2 [4]"] occupied built
    by (simp add: store_of_def insert_vertex_def at_def content_key_def node_def count_key_def)
qed

text \<open>
  A child with another parent: the vertex 4 is a child of 34. Inserting the vertex 24
  with the child list [4] twice takes the count of 4 from 1 to 2 and then to 3; it is
  not doubled.
\<close>

theorem insert_twice_not_doubled_counterexample:
  "count_key (store_of [node 4 [], node 3 [4]]) 4 = 1 \<and>
   count_key (fst (insert_vertex (store_of [node 4 [], node 3 [4]]) (24, node 2 [4]))) 4 = 2 \<and>
   at (fst (insert_vertex (store_of [node 4 [], node 3 [4]]) (24, node 2 [4]))) 24
     = Some (node 2 [4]) \<and>
   count_key
     (fst (insert_vertex (fst (insert_vertex (store_of [node 4 [], node 3 [4]]) (24, node 2 [4])))
        (24, node 2 [4]))) 4 = 3"
  by code_simp

section \<open>Running \<^verbatim>\<open>Tree::update\<close> on the example stores\<close>

lemma update_loop_done:
  "u_to_visit s = [] \<Longrightarrow> update_loop self_edge value s = Some (Inr s)"
  by (subst update_loop.simps) simp

lemma update_loop_step:
  "u_to_visit s \<noteq> [] \<Longrightarrow> update_step self_edge value s = Inr s' \<Longrightarrow>
     update_loop self_edge value s = update_loop self_edge value s'"
  by (subst update_loop.simps) simp

lemma update_loop_fail:
  "u_to_visit s \<noteq> [] \<Longrightarrow> update_step self_edge value s = Inl e \<Longrightarrow>
     update_loop self_edge value s = Some (Inl e)"
  by (subst update_loop.simps) simp

lemma update_unfold:
  assumes "t1 = t\<lparr>t_vertices := fst (insert_vertex (t_vertices t) (self_edge value, value))\<rparr>"
    and "for_each_enqueue self_edge t1 value [] (equal_range (t_vertices t1) k) = Inr to_visit"
    and "(if Some k = t_root t1 then root_set self_edge t1 (Some (self_edge value)) else Inr t1) = Inr t2"
    and "updated = (if k = self_edge value then [] else [(Some k, Some (self_edge value))])"
  shows "update self_edge t (Some k) value =
     (case update_loop self_edge value
             \<lparr>u_tree = t2, u_pins = [], u_updated = updated, u_to_visit = to_visit\<rparr> of
        None \<Rightarrow> None
      | Some (Inl e) \<Rightarrow> Some (Inl e)
      | Some (Inr s) \<Rightarrow>
          (case destroy_pins (t_vertices (u_tree s)) (u_pins s) of
             Inl e \<Rightarrow> Some (Inl e)
           | Inr m \<Rightarrow> Some (Inr ((u_tree s)\<lparr>t_vertices := m\<rparr>, Some (self_edge value)))))"
proof -
  have target: "fst (snd (insert_vertex (t_vertices t) (self_edge value, value))) = Some (self_edge value)"
    by (simp add: insert_vertex_def Let_def)
  show ?thesis
    unfolding update_def Let_def target
    using assms(2,3) unfolding assms(1) assms(4)
    by (auto simp: Mapping_set_def comparable_def)
qed

text \<open>
  C7. Updating the root with the vertex value that is stored there: the insertion
  finds the key occupied and returns the root itself, \<^verbatim>\<open>Tree::root\<close> takes it as the
  new root and erases the previous root, which is the same vertex. The root 343 is
  gone from the store and \<open>t_root\<close> still names it.
\<close>

theorem update_same_value_at_root:
  "at scenario_store 343 = Some (node 1 [24, 3]) \<and>
   at \<lparr>m_vertices = [(3, node 3 []), (4, node 4 []), (24, node 2 [4])],
        m_edges = [(4, 24), (24, 343), (3, 343)]\<rparr> 343 = None \<and>
   update content_key \<lparr>t_vertices = scenario_store, t_root = Some 343\<rparr> (Some 343) (node 1 [24, 3])
    = Some (Inr (\<lparr>t_vertices = \<lparr>m_vertices = [(3, node 3 []), (4, node 4 []), (24, node 2 [4])],
                   m_edges = [(4, 24), (24, 343), (3, 343)]\<rparr>, t_root = Some 343\<rparr>, Some 343))"
proof -
  let ?t = "\<lparr>t_vertices = scenario_store, t_root = Some 343\<rparr>"
  let ?t1 = "?t\<lparr>t_vertices := fst (insert_vertex (t_vertices ?t) (content_key (node 1 [24, 3]), node 1 [24, 3]))\<rparr>"
  let ?t2 = "\<lparr>t_vertices = \<lparr>m_vertices = [(3, node 3 []), (4, node 4 []), (24, node 2 [4])],
                   m_edges = [(4, 24), (24, 343), (3, 343)]\<rparr>, t_root = Some (343::nat)\<rparr>"
  have key: "content_key (node 1 [24, 3]) = 343" by code_simp
  have queue: "for_each_enqueue content_key ?t1 (node 1 [24, 3]) [] (equal_range (t_vertices ?t1) 343) = Inr []"
    by code_simp
  have flip: "(if Some 343 = t_root ?t1 then root_set content_key ?t1 (Some (content_key (node 1 [24, 3]))) else Inr ?t1) = Inr ?t2"
    by code_simp
  have upd: "[] = (if 343 = content_key (node 1 [24, 3]) then [] else [(Some 343, Some (content_key (node 1 [24, 3])))])"
    unfolding key by simp
  have loop: "update_loop content_key (node 1 [24, 3])
                \<lparr>u_tree = ?t2, u_pins = [], u_updated = [], u_to_visit = []\<rparr>
              = Some (Inr \<lparr>u_tree = ?t2, u_pins = [], u_updated = [], u_to_visit = []\<rparr>)"
    by (rule update_loop_done) simp
  have before: "at scenario_store 343 = Some (node 1 [24, 3])" by code_simp
  have after: "at \<lparr>m_vertices = [(3, node 3 []), (4, node 4 []), (24, node 2 [4])],
        m_edges = [(4, 24), (24, 343), (3, 343)]\<rparr> (343::nat) = None"
    by code_simp
  show ?thesis
    unfolding update_unfold [OF refl queue flip upd] loop key before after by simp
qed






text \<open>
  C6. An update of the vertex 1 of the diamond store, which the root 641 reaches
  through 21 and through 31. The loop queues the root once for each path. The first
  entry rebuilds the root and erases the old one; the second entry then reads the
  erased root, and the call ends there instead of returning the target.
\<close>

theorem update_two_paths:
  "diamond_store
     = \<lparr>m_vertices = [(1, node 1 []), (21, node 2 [1]), (31, node 3 [1]), (641, node 4 [21, 31])],
        m_edges = [(1, 21), (1, 31), (21, 641), (31, 641)]\<rparr> \<and>
   update content_key \<lparr>t_vertices = diamond_store, t_root = Some 641\<rparr> (Some 1) (node 5 [])
     = Some (Inl InvalidIterator)"
proof -
  let ?t = "\<lparr>t_vertices = diamond_store, t_root = Some 641\<rparr>"
  let ?v = "node 5 []"
  let ?t1 = "?t\<lparr>t_vertices := fst (insert_vertex (t_vertices ?t) (content_key ?v, ?v))\<rparr>"
  let ?s0 = "\<lparr>u_tree = ?t1, u_pins = [], u_updated = [(Some 1, Some 5)], u_to_visit = [(1, 21), (1, 31)]\<rparr>"
  let ?s1 = "\<lparr>u_tree =
        \<lparr>t_vertices =
           \<lparr>m_vertices = [(1, node 1 []), (5, node 5 []), (21, node 2 [1]), (25, node 2 [5]),
                          (31, node 3 [1]), (641, node 4 [21, 31])],
              m_edges = [(1, 21), (1, 31), (21, 641), (31, 641), (5, 5), (5, 25)]\<rparr>,
           t_root = Some 641\<rparr>,
        u_pins = [\<lparr>pin_attached = True, pin_edge = (5, 5)\<rparr>],
        u_updated = [(Some 1, Some 5), (Some 21, Some 25)],
        u_to_visit = [(1, 31), (21, 641)]\<rparr>"
  let ?s2 = "\<lparr>u_tree =
        \<lparr>t_vertices =
           \<lparr>m_vertices = [(1, node 1 []), (5, node 5 []), (21, node 2 [1]), (25, node 2 [5]),
                          (31, node 3 [1]), (35, node 3 [5]), (641, node 4 [21, 31])],
              m_edges = [(1, 21), (1, 31), (21, 641), (31, 641), (5, 5), (5, 25),
                         (5, 35)]\<rparr>,
           t_root = Some 641\<rparr>,
        u_pins = [\<lparr>pin_attached = True, pin_edge = (5, 5)\<rparr>],
        u_updated = [(Some 1, Some 5), (Some 21, Some 25), (Some 31, Some 35)],
        u_to_visit = [(21, 641), (31, 641)]\<rparr>"
  let ?s3 = "\<lparr>u_tree =
        \<lparr>t_vertices =
           \<lparr>m_vertices = [(1, node 1 []), (5, node 5 []), (25, node 2 [5]), (31, node 3 [1]),
                          (35, node 3 [5]), (735, node 4 [31, 25])],
              m_edges = [(1, 31), (5, 5), (5, 25), (5, 35), (25, 25), (31, 735),
                         (25, 735)]\<rparr>,
           t_root = Some 735\<rparr>,
        u_pins = [\<lparr>pin_attached = True, pin_edge = (5, 5)\<rparr>,
                  \<lparr>pin_attached = True, pin_edge = (25, 25)\<rparr>],
        u_updated = [(Some 1, Some 5), (Some 21, Some 25), (Some 31, Some 35)],
        u_to_visit = [(31, 641)]\<rparr>"
  have key: "content_key ?v = 5" by code_simp
  have queue: "for_each_enqueue content_key ?t1 ?v [] (equal_range (t_vertices ?t1) 1)
                 = Inr [(1, 21), (1, 31)]"
    by code_simp
  have no_flip: "(if Some 1 = t_root ?t1 then root_set content_key ?t1 (Some (content_key ?v)) else Inr ?t1) = Inr ?t1"
    by code_simp
  have upd: "[(Some 1, Some 5)] = (if 1 = content_key ?v then [] else [(Some 1, Some (content_key ?v))])"
    unfolding key by simp
  have step1: "update_step content_key ?v ?s0 = Inr ?s1" by code_simp
  have step2: "update_step content_key ?v ?s1 = Inr ?s2" by code_simp
  have step3: "update_step content_key ?v ?s2 = Inr ?s3" by code_simp
  have step4: "update_step content_key ?v ?s3 = Inl InvalidIterator" by code_simp
  have loop: "update_loop content_key ?v ?s0 = Some (Inl InvalidIterator)"
    using update_loop_step [OF _ step1] update_loop_step [OF _ step2]
      update_loop_step [OF _ step3] update_loop_fail [OF _ step4]
    by simp
  have shape: "diamond_store
     = \<lparr>m_vertices = [(1, node 1 []), (21, node 2 [1]), (31, node 3 [1]), (641, node 4 [21, 31])],
        m_edges = [(1, 21), (1, 31), (21, 641), (31, 641)]\<rparr>"
    by code_simp
  have "update content_key ?t (Some 1) ?v = Some (Inl InvalidIterator)"
    unfolding update_unfold [OF refl queue no_flip upd] loop by simp
  with shape show ?thesis by simp
qed


section \<open>The cascading erase keeps the reference counts exact\<close>

lemma count_list_links: "count_list (map (\<lambda>g. (g, c)) cs) (x, p) = (if p = c then count_list cs x else 0)"
  by (induction cs) auto

lemma count_list_pos_iff: "0 < count_list xs x \<longleftrightarrow> x \<in> set xs"
  by (induction xs) auto

lemma count_key_zero_iff: "count_key m c = 0 \<longleftrightarrow> (\<forall>p. (c, p) \<notin> set (m_edges m))"
  by (auto simp: count_key_def filter_empty_conv)

lemma count_list_le_count_key: "count_list (m_edges m) (c, p) \<le> count_key m c"
proof -
  have "count_list xs (c, p) \<le> length (filter (\<lambda>e. fst e = c) xs)" for xs :: "('a \<times> 'a) list"
    by (induction xs) auto
  then show ?thesis by (simp add: count_key_def)
qed

lemma find_edges_all:
  "distinct cs \<Longrightarrow> set cs \<inter> set seen = {} \<Longrightarrow> \<forall>g\<in>set cs. (g, c) \<in> set (m_edges m) \<Longrightarrow>
     find_edges m c seen cs = map (\<lambda>g. At (g, c)) cs"
  by (induction cs arbitrary: seen) (auto simp: find_edge_def)

text \<open>
  One iteration of the loop keeps the invariant: the edges it pushes are those from the
  children of the vertex it erases to that vertex, in the order of the child list, and
  they are in the store.
\<close>

lemma cascade_step_balanced:
  assumes mem: "e \<in> set (m_edges m)" and bal: "balanced S ((e # es') @ Y) m"
    and dc: "distinct_children m"
  shows "distinct_children (cascade_store m e) \<and>
         (\<forall>k\<in>S. at (cascade_store m e) k = at m k) \<and>
         (\<exists>ps. cascade_push m e = map At ps \<and>
               balanced S ((es' @ ps) @ Y) (cascade_store m e) \<and>
               (\<forall>x vx. at m x = Some vx \<and> at (cascade_store m e) x = None \<longrightarrow>
                        ps = map (\<lambda>g. (g, x)) (edges vx)))"
proof -
  define c where "c = fst e"
  have e: "fst e = c" by (simp add: c_def)
  note bal' = bal [unfolded balanced_def]
  have S0: "\<forall>k\<in>S. count_key m k = 0" using bal' by blast
  have cnt: "count_list (m_edges m) (x, p) =
               (if p \<in> S then 0
                else (case at m p of None \<Rightarrow> 0 | Some v \<Rightarrow> count_list (edges v) x))
               + (if (x, p) = e then 1 else 0) + count_list (es' @ Y) (x, p)" for x p
    using bal' by auto
  have cS: "c \<notin> S" using S0 count_key_pos [OF mem] e by auto
  have ne: "(g, c) \<noteq> e" if "g \<noteq> c" for g using that e by (metis fst_conv)
  let ?push = "cascade_push m e"
  let ?m' = "cascade_store m e"
  have S0': "\<forall>k\<in>S. count_key ?m' k = 0"
    using S0 by (simp add: count_key_cascade_store [OF mem])
  have dc': "distinct_children ?m'"
    using dc by (auto simp: distinct_children_def at_cascade_store [OF mem] split: if_splits)
  have atS: "\<forall>k\<in>S. at ?m' k = at m k"
    using cS e by (auto simp: at_cascade_store [OF mem])
  have "\<exists>ps. ?push = map At ps \<and> balanced S ((es' @ ps) @ Y) ?m' \<and>
          (\<forall>x vx. at m x = Some vx \<and> at ?m' x = None \<longrightarrow> ps = map (\<lambda>g. (g, x)) (edges vx))"
  proof (cases "count_key m c = 1 \<and> at m c \<noteq> None")
    case False
    then have push: "?push = []" and at': "at ?m' = at m"
      using e by (auto simp: cascade_push_eq [OF mem] at_cascade_store [OF mem] fun_eq_iff)
    have "balanced S (es' @ Y) ?m'"
      unfolding balanced_def using S0' cnt by (auto simp: at' count_list_remove1)
    with push at' show ?thesis by auto
  next
    case True
    then obtain v where v: "at m c = Some v" and one: "count_key m c = 1" by auto
    have dv: "distinct (edges v)" using dc v by (auto simp: distinct_children_def)
    have self: "c \<notin> set (edges v)"
    proof
      assume "c \<in> set (edges v)"
      then have "0 < count_list (edges v) c" by (simp add: count_list_pos_iff)
      with cnt [of c c] cS v have cc: "(c, c) \<in> set (m_edges m)"
        by (auto simp: count_list_pos_iff [symmetric] split: if_splits)
      have "e = (c, c)"
      proof (rule ccontr)
        assume ne: "e \<noteq> (c, c)"
        from cc ne have "(c, c) \<in> set (m_edges (m\<lparr>m_edges := remove1 e (m_edges m)\<rparr>))"
          by simp
        from count_key_pos [OF this]
        have "0 < count_key (m\<lparr>m_edges := remove1 e (m_edges m)\<rparr>) c" by simp
        with count_key_remove1 [OF mem, of c] e have "2 \<le> count_key m c" by simp
        with one show False by simp
      qed
      with cnt [of c c] cS v \<open>0 < count_list (edges v) c\<close>
      have "2 \<le> count_list (m_edges m) (c, c)" by auto
      moreover have "count_list (m_edges m) (c, c) \<le> count_key m c"
        by (rule count_list_le_count_key)
      ultimately show False using one by simp
    qed
    have present: "\<forall>g\<in>set (edges v). (g, c) \<in> set (remove1 e (m_edges m))"
    proof
      fix g assume g: "g \<in> set (edges v)"
      then have "0 < count_list (edges v) g" by (simp add: count_list_pos_iff)
      with cnt [of g c] cS v have "(g, c) \<in> set (m_edges m)"
        by (auto simp: count_list_pos_iff [symmetric] split: if_splits)
      moreover from g self have "g \<noteq> c" by auto
      then have "(g, c) \<noteq> e" by (rule ne)
      ultimately show "(g, c) \<in> set (remove1 e (m_edges m))" by simp
    qed
    from present
    have "\<forall>g\<in>set (edges v). (g, c) \<in> set (m_edges (m\<lparr>m_edges := remove1 e (m_edges m)\<rparr>))"
      by simp
    from find_edges_all [OF dv _ this, of "[]"]
    have "find_edges (m\<lparr>m_edges := remove1 e (m_edges m)\<rparr>) c [] (edges v)
            = map (\<lambda>g. At (g, c)) (edges v)"
      by simp
    then have push: "?push = map At (map (\<lambda>g. (g, c)) (edges v))"
      using one v e by (simp add: cascade_push_eq [OF mem] o_def)
    have at': "at ?m' x = (if x = c then None else at m x)" for x
      using one e by (simp add: at_cascade_store [OF mem])
    have "balanced S ((es' @ map (\<lambda>g. (g, c)) (edges v)) @ Y) ?m'"
      unfolding balanced_def
    proof (intro conjI allI)
      show "\<forall>k\<in>S. count_key ?m' k = 0" by (rule S0')
      fix x p
      show "count_list (m_edges ?m') (x, p) =
              (if p \<in> S then 0
               else case at ?m' p of None \<Rightarrow> 0 | Some v \<Rightarrow> count_list (edges v) x) +
              count_list ((es' @ map (\<lambda>g. (g, c)) (edges v)) @ Y) (x, p)"
        using cnt [of x p] cS v
        by (auto simp: at' count_list_remove1 count_list_links)
    qed
    moreover have "map (\<lambda>g. (g, c)) (edges v) = map (\<lambda>g. (g, x)) (edges vx)"
      if "at m x = Some vx \<and> at ?m' x = None" for x vx
      using that v by (auto simp: at' split: if_splits)
    ultimately show ?thesis using push by blast
  qed
  with dc' atS show ?thesis by blast
qed

lemma cascade_balanced:
  "q = map At es \<Longrightarrow> balanced S (es @ Y) m \<Longrightarrow> distinct_children m \<Longrightarrow>
     \<exists>m'. erase_edge_at m q = Inr m' \<and> balanced S Y m' \<and> distinct_children m' \<and>
          (\<forall>k\<in>S. at m' k = at m k)"
proof (induction m q arbitrary: es rule: cascade_induct)
  case (Nil m)
  then show ?case by simp
next
  case (End m q)
  then show ?case by auto
next
  case (Gone m e q)
  then show ?case by auto
next
  case (Absent m e q)
  from Absent.prems(1) obtain es' where es: "es = e # es'" by auto
  from Absent.prems(2) have "0 < count_list (m_edges m) e"
    unfolding balanced_def es by (cases e) auto
  with Absent.hyps show ?case by (simp add: count_list_pos_iff)
next
  case (Step m e q)
  from Step.prems(1) obtain es' where es: "es = e # es'" and q: "q = map At es'" by auto
  let ?m' = "cascade_store m e"
  from cascade_step_balanced [OF Step.hyps Step.prems(2) [unfolded es] Step.prems(3)]
  obtain ps where dc': "distinct_children ?m'"
    and atS: "\<forall>k\<in>S. at ?m' k = at m k"
    and push: "cascade_push m e = map At ps"
    and bal': "balanced S ((es' @ ps) @ Y) ?m'"
    by blast
  have "q @ cascade_push m e = map At (es' @ ps)" by (simp add: q push)
  from Step.IH [OF this bal' dc']
  obtain m' where "erase_edge_at ?m' (q @ cascade_push m e) = Inr m'" "balanced S Y m'"
    "distinct_children m'" "\<forall>k\<in>S. at m' k = at ?m' k" by blast
  with atS show ?case
    unfolding erase_edge_at_step [OF Step.hyps] by auto
qed

lemma balanced_mem: "balanced S (e # Y) m \<Longrightarrow> e \<in> set (m_edges m)"
proof -
  assume "balanced S (e # Y) m"
  then have "0 < count_list (m_edges m) e"
    unfolding balanced_def by (cases e) auto
  then show ?thesis by (simp add: count_list_pos_iff)
qed

lemma erase_edge_balanced:
  assumes "balanced S (e # Y) m" and "distinct_children m"
  shows "\<exists>m'. erase_edge m e = Inr m' \<and> balanced S Y m' \<and> distinct_children m' \<and>
          (\<forall>k\<in>S. at m' k = at m k)"
proof -
  have "erase_edge m e = erase_edge_at m [At e]"
    using balanced_mem [OF assms(1)] by (simp add: erase_edge_def find_edge_def)
  moreover have "balanced S ([e] @ Y) m" using assms(1) by simp
  ultimately show ?thesis
    using cascade_balanced [of "[At e]" "[e]" S Y m] assms(2) by simp
qed

lemma erase_child_edges_balanced:
  "balanced S (map (\<lambda>c. (c, k)) rest @ Y) m \<Longrightarrow> distinct_children m \<Longrightarrow>
     \<exists>m'. erase_child_edges m k rest = Inr m' \<and> balanced S Y m' \<and> distinct_children m' \<and>
          (\<forall>x\<in>S. at m' x = at m x)"
proof (induction rest arbitrary: m)
  case Nil
  then show ?case by simp
next
  case (Cons c rest)
  from Cons.prems(1) have "balanced S ((c, k) # (map (\<lambda>c. (c, k)) rest @ Y)) m" by simp
  from erase_edge_balanced [OF this Cons.prems(2)]
  obtain m1 where m1: "erase_edge m (c, k) = Inr m1"
    "balanced S (map (\<lambda>c. (c, k)) rest @ Y) m1" "distinct_children m1"
    "\<forall>x\<in>S. at m1 x = at m x" by blast
  from Cons.IH [OF m1(2,3)] m1(1,4) show ?case by auto
qed

lemma erased_by_refl: "erased_by m m"
  by (auto simp: erased_by_def)

lemma erased_by_trans: "erased_by m0 m1 \<Longrightarrow> erased_by m1 m2 \<Longrightarrow> erased_by m0 m2"
  unfolding erased_by_def
proof (intro allI conjI)
  fix x
  assume a: "\<forall>x. count_key m1 x \<le> count_key m0 x \<and>
          at m1 x = (if 0 < count_key m0 x \<and> count_key m1 x = 0 then None else at m0 x)"
    and b: "\<forall>x. count_key m2 x \<le> count_key m1 x \<and>
          at m2 x = (if 0 < count_key m1 x \<and> count_key m2 x = 0 then None else at m1 x)"
  from a b show "count_key m2 x \<le> count_key m0 x" by (meson order_trans)
  from a [rule_format, of x] b [rule_format, of x]
  show "at m2 x = (if 0 < count_key m0 x \<and> count_key m2 x = 0 then None else at m0 x)"
    by (auto split: if_splits)
qed

lemma erase_edge_at_erased_by: "erase_edge_at m q = Inr m' \<Longrightarrow> erased_by m m'"
  using erase_edge_at_erased [of m q m'] erase_edge_at_decreasing [of m q m']
  by (simp add: erased_by_def)

lemma erase_edge_erased_by:
  assumes "erase_edge m e = Inr m'"
  shows "erased_by m m'"
proof (cases "e \<in> set (m_edges m)")
  case True
  with assms have "erase_edge_at m [At e] = Inr m'"
    by (simp only: erase_edge_def find_edge_def if_True edge_iterator.case)
  then show ?thesis by (rule erase_edge_at_erased_by)
next
  case False
  with assms have "m' = m" by (simp add: erase_edge_def find_edge_def)
  then show ?thesis by (simp add: erased_by_refl)
qed

lemma erase_child_edges_erased_by: "erase_child_edges m k cs = Inr m' \<Longrightarrow> erased_by m m'"
proof (induction cs arbitrary: m)
  case Nil
  then show ?case by (simp add: erased_by_refl)
next
  case (Cons c cs)
  then show ?case
    by (auto split: sum.splits intro: erased_by_trans erase_edge_erased_by)
qed

lemma refcount_ok_balanced:
  assumes "refcount_ok m" and "at m k = Some v" and "count_key m k = 0"
  shows "balanced {k} (map (\<lambda>c. (c, k)) (edges v) @ []) m"
  using assms unfolding refcount_ok_def balanced_def
  by (auto simp: count_list_links)

lemma erase_vertex_ok:
  assumes "at m k = Some v" and "self_edge v = k" and "count_key m k = 0"
    and "refcount_ok m" and "distinct_children m"
  shows "\<exists>m' it. erase_vertex self_edge m (Some k) = Inr (m', it) \<and>
           refcount_ok m' \<and> distinct_children m' \<and> at m' k = None \<and>
           (\<forall>x. count_key m' x \<le> count_key m x) \<and>
           (\<forall>x. x \<noteq> k \<longrightarrow>
              at m' x = (if 0 < count_key m x \<and> count_key m' x = 0 then None else at m x))"
proof -
  from erase_child_edges_balanced [OF refcount_ok_balanced [OF assms(4,1,3)] assms(5)]
  obtain m1 where m1: "erase_child_edges m k (edges v) = Inr m1" "balanced {k} [] m1"
    "distinct_children m1" "at m1 k = at m k" by auto
  let ?m' = "m1\<lparr>m_vertices := erase_key k (m_vertices m1)\<rparr>"
  have run: "erase_vertex self_edge m (Some k) = Inr (?m', next_vertex (m_vertices m1) k)"
    using assms(1,2,3) m1(1) by (simp add: erase_vertex_def)
  have at': "at ?m' x = (if x = k then None else at m1 x)" for x
    by (simp add: at_def at_erase_key)
  have ok: "refcount_ok ?m'"
    using m1(2) unfolding refcount_ok_def balanced_def by (auto simp: at_def at_erase_key)
  have dc: "distinct_children ?m'"
    using m1(3) unfolding distinct_children_def by (auto simp: at_def at_erase_key split: if_splits)
  from erase_child_edges_erased_by [OF m1(1)]
  have er: "erased_by m m1" .
  have "\<forall>x. count_key ?m' x \<le> count_key m x"
    using er by (simp add: erased_by_def)
  moreover have "\<forall>x. x \<noteq> k \<longrightarrow>
              at ?m' x = (if 0 < count_key m x \<and> count_key ?m' x = 0 then None else at m x)"
    using er by (simp add: erased_by_def at_def at_erase_key)
  moreover have "at ?m' k = None" by simp
  ultimately show ?thesis
    using run ok dc by blast
qed

section \<open>The order in which the cascading erase removes the edges\<close>








section \<open>The invariants on an example store\<close>



section \<open>Pin\<close>


lemma remove1_appended: "e \<notin> set xs \<Longrightarrow> remove1 e (xs @ [e]) = xs"
  by (simp add: remove1_append)







section \<open>The reference counts in the reachable stores\<close>

text \<open>
  The invariants hold in the empty store and are kept by inserting a vertex with a
  duplicate-free child list under a key that is not occupied, and by
  \<^verbatim>\<open>ManagedVertexMap::erase\<close>.
\<close>

lemma refcount_ok_empty: "refcount_ok \<lparr>m_vertices = [], m_edges = []\<rparr>"
  by (simp add: refcount_ok_def at_def)

lemma distinct_children_empty: "distinct_children \<lparr>m_vertices = [], m_edges = []\<rparr>"
  by (simp add: distinct_children_def at_def)

lemma refcount_ok_insert:
  assumes "refcount_ok m" and "at m k = None"
  shows "refcount_ok (fst (insert_vertex m (k, v)))"
  using assms unfolding refcount_ok_def
  by (auto simp: at_insert_vertex m_edges_insert_vertex count_list_links)

lemma distinct_children_insert:
  assumes "distinct_children m" and "distinct (edges v)"
  shows "distinct_children (fst (insert_vertex m (k, v)))"
  using assms unfolding distinct_children_def
  by (auto simp: at_insert_vertex split: if_splits)

lemma erase_vertex_invariants:
  assumes "erase_vertex self_edge m pos = Inr (m', it)"
    and "refcount_ok m" and "distinct_children m"
  shows "refcount_ok m' \<and> distinct_children m'"
proof (cases pos)
  case None
  with assms(1) show ?thesis by (simp add: erase_vertex_def)
next
  case (Some k)
  show ?thesis
  proof (cases "at m k")
    case None
    with Some assms(1) show ?thesis by (simp add: erase_vertex_def)
  next
    case (Some v)
    note v = this
    show ?thesis
    proof (cases "self_edge v = k \<and> count_key m k = 0")
      case True
      with erase_vertex_ok [where self_edge = self_edge, OF v _ _ assms(2,3)] assms(1) \<open>pos = Some k\<close>
      show ?thesis by auto
    next
      case False
      with assms \<open>pos = Some k\<close> v show ?thesis
        by (auto simp: erase_vertex_def split: if_splits)
    qed
  qed
qed

lemma store_reachable_invariants:
  "store_reachable self_edge m \<Longrightarrow> refcount_ok m \<and> distinct_children m"
proof (induction rule: store_reachable.induct)
  case reachable_empty
  show ?case by (simp add: refcount_ok_empty distinct_children_empty)
next
  case (reachable_insert m v)
  then show ?case by (simp add: refcount_ok_insert distinct_children_insert)
next
  case (reachable_erase m pos m' it)
  then show ?case using erase_vertex_invariants by blast
qed

lemma distinct_count_list: "(\<forall>x. count_list xs x \<le> 1) \<Longrightarrow> distinct xs"
proof (induction xs)
  case (Cons a xs)
  have "count_list xs x \<le> 1" for x
    using Cons.prems [rule_format, of x] by (simp split: if_splits)
  with Cons.IH have "distinct xs" by simp
  moreover have "a \<notin> set xs"
    using Cons.prems [rule_format, of a] by (simp add: count_list_pos_iff [symmetric])
  ultimately show ?case by simp
qed simp

lemma count_list_distinct: "distinct xs \<Longrightarrow> count_list xs x \<le> 1"
  by (induction xs) (auto simp: count_list_pos_iff [symmetric])

lemma count_key_parents:
  assumes "refcount_ok m" and "distinct_children m"
  shows "count_key m K = card {p. \<exists>v. at m p = Some v \<and> K \<in> set (edges v)}"
proof -
  let ?P = "{p. \<exists>v. at m p = Some v \<and> K \<in> set (edges v)}"
  have le1: "count_list (m_edges m) e \<le> 1" for e
  proof (cases e)
    case (Pair c p)
    show ?thesis
    proof (cases "at m p")
      case None
      with assms(1) [unfolded refcount_ok_def, rule_format, of c p] show ?thesis
        by (simp add: Pair)
    next
      case (Some v)
      with assms(2) have "distinct (edges v)" by (auto simp: distinct_children_def)
      from count_list_distinct [OF this, of c] Some
        assms(1) [unfolded refcount_ok_def, rule_format, of c p]
      show ?thesis by (simp add: Pair)
    qed
  qed
  then have "distinct (m_edges m)" by (simp add: distinct_count_list)
  then have d: "distinct (filter (\<lambda>e. fst e = K) (m_edges m))" by simp
  have mem: "(K, p) \<in> set (m_edges m) \<longleftrightarrow> p \<in> ?P" for p
    using assms(1) [unfolded refcount_ok_def, rule_format, of K p]
    by (auto simp: count_list_pos_iff [symmetric] split: option.splits)
  have "set (filter (\<lambda>e. fst e = K) (m_edges m)) = (\<lambda>p. (K, p)) ` ?P"
    using mem by (auto simp: image_iff)
  then have "card (set (filter (\<lambda>e. fst e = K) (m_edges m))) = card ?P"
    by (simp add: card_image inj_on_def)
  with distinct_card [OF d] show ?thesis by (simp add: count_key_def)
qed

text \<open>
  C1. In every store that is built from the empty store by inserting vertices with
  duplicate-free child lists under keys that are not occupied and by erasing vertices,
  the count of a key \<open>K\<close> is the number of the stored vertices whose child list
  contains \<open>K\<close>.
\<close>

theorem refcount_integrity:
  "store_reachable self_edge m \<Longrightarrow>
     count_key m K = card {p. \<exists>v. at m p = Some v \<and> K \<in> set (edges v)}"
  using store_reachable_invariants [of self_edge m] by (simp add: count_key_parents)

text \<open>
  An instance: the store of the vertex 4 and its parent 24 is built in this way, and
  the count of 4 is one, the number of its stored parents.
\<close>

theorem refcount_integrity_witness:
  "store_reachable content_key (store_of [node 4 [], node 2 [4]]) \<and>
   count_key (store_of [node 4 [], node 2 [4]]) 4 = 1 \<and>
   card {p. \<exists>v. at (store_of [node 4 [], node 2 [4]]) p = Some v \<and> 4 \<in> set (edges v)} = 1"
proof -
  let ?m0 = "\<lparr>m_vertices = [], m_edges = []\<rparr> :: (nat, nat) managed_vertex_map"
  let ?m1 = "fst (insert_vertex ?m0 (content_key (node 4 []), node 4 []))"
  let ?m2 = "fst (insert_vertex ?m1 (content_key (node 2 [4]), node 2 [4]))"
  have r1: "store_reachable content_key ?m1"
    by (rule reachable_insert [OF reachable_empty]; code_simp)
  have r2: "store_reachable content_key ?m2"
    by (rule reachable_insert [OF r1]; code_simp)
  have eq: "store_of [node 4 [], node 2 [4]] = ?m2" by (simp add: store_of_def)
  have r: "store_reachable content_key (store_of [node 4 [], node 2 [4]])"
    unfolding eq by (rule r2)
  have c: "count_key (store_of [node 4 [], node 2 [4]]) 4 = 1" by code_simp
  from refcount_integrity [OF r, of 4] r c show ?thesis by simp
qed

text \<open>
  A vertex that lists the child 4 twice: \<^verbatim>\<open>insert\<close> adds one edge for every element
  of the child list, so the count of 4 is two while one stored vertex has 4 in its
  child list.
\<close>

theorem refcount_duplicate_child_counterexample:
  "store_of [node 4 [], node 2 [4, 4]]
     = \<lparr>m_vertices = [(4, node 4 []), (244, node 2 [4, 4])], m_edges = [(4, 244), (4, 244)]\<rparr> \<and>
   count_key (store_of [node 4 [], node 2 [4, 4]]) 4 = 2 \<and>
   card {p. \<exists>v. at (store_of [node 4 [], node 2 [4, 4]]) p = Some v \<and> 4 \<in> set (edges v)} = 1"
proof -
  have shape: "store_of [node 4 [], node 2 [4, 4]]
     = \<lparr>m_vertices = [(4, node 4 []), (244, node 2 [4, 4])], m_edges = [(4, 244), (4, 244)]\<rparr>"
    by code_simp
  have cnt: "count_key (store_of [node 4 [], node 2 [4, 4]]) 4 = 2" by code_simp
  have "{p. \<exists>v. at (store_of [node 4 [], node 2 [4, 4]]) p = Some v \<and> 4 \<in> set (edges v)} = {244}"
    unfolding shape by (auto simp: at_def node_def split: if_splits)
  then have "card {p. \<exists>v. at (store_of [node 4 [], node 2 [4, 4]]) p = Some v \<and> 4 \<in> set (edges v)} = 1"
    by simp
  with shape cnt show ?thesis by (intro conjI)
qed

section \<open>Cascading deletion\<close>







text \<open>
  A vertex that lists a child twice, below the erased vertex: when the cascade erases
  244, \<^verbatim>\<open>find\<close> gives the iterator of the first of the two edges from 4 to 244 for
  both elements of the child list, and the loop takes that iterator from the queue a
  second time after it has erased the edge.
\<close>

lemma erase_vertex_repeated_child:
  "store_of [node 4 [], node 2 [4, 4], node 1 [244]]
     = \<lparr>m_vertices = [(4, node 4 []), (244, node 2 [4, 4]), (254, node 1 [244])],
        m_edges = [(4, 244), (4, 244), (244, 254)]\<rparr> \<and>
   erase_vertex content_key (store_of [node 4 [], node 2 [4, 4], node 1 [244]]) (Some 254)
     = Inl InvalidIterator"
  by code_simp

section \<open>Garbage freedom after a root replacement\<close>

text \<open>
  The child lists of a store are finite in number, so in an acyclic store every vertex
  has an ancestor without a parent. Under \<open>refcount_ok\<close> the vertices without a stored
  parent are those with the count zero.
\<close>

lemma finite_children_rel: "finite (children_rel m)"
proof -
  have "children_rel m \<subseteq> (\<Union>pv\<in>set (m_vertices m). {fst pv} \<times> set (edges (snd pv)))"
    by (auto simp: children_rel_def at_def dest!: map_of_SomeD)
  moreover have "finite (\<Union>pv\<in>set (m_vertices m). {fst pv} \<times> set (edges (snd pv)))"
    by simp
  ultimately show ?thesis by (rule finite_subset)
qed

lemma top_ancestor:
  assumes "acyclic (children_rel m)"
  shows "\<exists>w. (w, x) \<in> (children_rel m)\<^sup>* \<and> (\<forall>p. (p, w) \<notin> children_rel m)"
proof -
  from finite_children_rel assms have "wf (children_rel m)" by (rule finite_acyclic_wf)
  moreover have "x \<in> {w. (w, x) \<in> (children_rel m)\<^sup>*}" by simp
  ultimately obtain z where z: "z \<in> {w. (w, x) \<in> (children_rel m)\<^sup>*}"
    and least: "\<And>y. (y, z) \<in> children_rel m \<Longrightarrow> y \<notin> {w. (w, x) \<in> (children_rel m)\<^sup>*}"
    by (rule wfE_min) blast
  have "(p, z) \<notin> children_rel m" for p
  proof
    assume p: "(p, z) \<in> children_rel m"
    with z have "(p, x) \<in> (children_rel m)\<^sup>*" by (simp add: converse_rtrancl_into_rtrancl)
    with least [OF p] show False by simp
  qed
  with z show ?thesis by blast
qed

lemma unreferenced_without_parent:
  assumes "refcount_ok m" and "\<forall>p. (p, w) \<notin> children_rel m"
  shows "count_key m w = 0"
proof -
  have "(w, p) \<notin> set (m_edges m)" for p
  proof -
    from assms(2) have "case at m p of None \<Rightarrow> True | Some v \<Rightarrow> w \<notin> set (edges v)"
      by (auto simp: children_rel_def split: option.splits)
    then have "count_list (m_edges m) (w, p) = 0"
      using assms(1) [unfolded refcount_ok_def, rule_format, of w p]
      by (auto simp: count_list_pos_iff [symmetric] split: option.splits)
    then show ?thesis by (simp add: count_list_pos_iff [symmetric])
  qed
  then show ?thesis by (simp add: count_key_zero_iff)
qed

lemma referenced_with_parent:
  assumes "refcount_ok m" and "(p, w) \<in> children_rel m"
  shows "0 < count_key m w"
proof -
  from assms(2) obtain v where "at m p = Some v" "w \<in> set (edges v)"
    by (auto simp: children_rel_def)
  with assms(1) [unfolded refcount_ok_def, rule_format, of w p]
  have "0 < count_list (m_edges m) (w, p)" by (simp add: count_list_pos_iff)
  with count_list_le_count_key [of m w p] show ?thesis by simp
qed

lemma garbage_free_after:
  assumes ok: "refcount_ok m" and ok': "refcount_ok m'"
    and acyc: "acyclic (children_rel m)"
    and gf: "garbage_free (insert r L) m"
    and mono: "\<forall>x. at m' x = None \<or> at m' x = at m x"
    and dropped: "\<forall>x. x \<noteq> r \<and> 0 < count_key m x \<and> count_key m' x = 0 \<longrightarrow> at m' x = None"
    and root: "at m' r = None \<or> count_key m' r \<noteq> 0"
  shows "garbage_free L m'"
  unfolding garbage_free_def
proof (intro allI impI)
  fix x assume x: "at m' x \<noteq> None"
  have sub: "children_rel m' \<subseteq> children_rel m"
    using mono by (auto simp: children_rel_def) (metis option.distinct(1))
  then have "acyclic (children_rel m')" using acyc by (rule acyclic_subset [rotated])
  from top_ancestor [OF this, of x]
  obtain w where w: "(w, x) \<in> (children_rel m')\<^sup>*" "\<forall>p. (p, w) \<notin> children_rel m'" by blast
  have stored: "at m' w \<noteq> None"
    using w(1) x by (cases rule: converse_rtranclE) (auto simp: children_rel_def)
  have zero: "count_key m' w = 0" using ok' w(2) by (rule unreferenced_without_parent)
  have "w \<noteq> r" using root stored zero by auto
  from stored mono have "at m w \<noteq> None" by (metis)
  with gf obtain \<rho> where \<rho>: "\<rho> \<in> insert r L" "(\<rho>, w) \<in> (children_rel m)\<^sup>*"
    by (auto simp: garbage_free_def)
  have "\<rho> = w"
  proof (rule ccontr)
    assume "\<rho> \<noteq> w"
    with \<rho>(2) obtain p where "(p, w) \<in> children_rel m" by (auto elim: rtranclE)
    with ok have "0 < count_key m w" by (rule referenced_with_parent)
    with dropped \<open>w \<noteq> r\<close> zero have "at m' w = None" by simp
    with stored show False by simp
  qed
  with \<rho>(1) \<open>w \<noteq> r\<close> have "w \<in> L" by simp
  with w(1) show "\<exists>r\<in>L. (r, x) \<in> (children_rel m')\<^sup>*" by blast
qed

text \<open>
  C3. The root setter of a tree whose root \<open>r\<close> is stored under its own key, in an
  acyclic store that satisfies the reference-count invariants and in which every vertex
  is reached from \<open>r\<close> or from one of the other live roots \<open>L\<close>: the call succeeds and
  sets the root, and afterwards every stored vertex is reached from one of the roots
  in \<open>L\<close>. The store is acyclic and satisfies the invariants again.
\<close>

theorem root_set_garbage_free:
  assumes "t_root t = Some r" and "at (t_vertices t) r = Some v" and "self_edge v = r"
    and "refcount_ok (t_vertices t)" and "distinct_children (t_vertices t)"
    and "acyclic (children_rel (t_vertices t))"
    and "garbage_free (insert r L) (t_vertices t)"
  shows "\<exists>t'. root_set self_edge t value = Inr t' \<and> t_root t' = value \<and>
           garbage_free L (t_vertices t') \<and>
           refcount_ok (t_vertices t') \<and> distinct_children (t_vertices t') \<and>
           acyclic (children_rel (t_vertices t'))"
proof -
  let ?m = "t_vertices t"
  have "\<exists>m' it. erase_vertex self_edge ?m (Some r) = Inr (m', it) \<and>
          refcount_ok m' \<and> distinct_children m' \<and>
          (\<forall>x. at m' x = None \<or> at m' x = at ?m x) \<and>
          (\<forall>x. x \<noteq> r \<and> 0 < count_key ?m x \<and> count_key m' x = 0 \<longrightarrow> at m' x = None) \<and>
          (at m' r = None \<or> count_key m' r \<noteq> 0)"
  proof (cases "count_key ?m r = 0")
    case True
    from erase_vertex_ok [where self_edge = self_edge, OF assms(2,3) True assms(4,5)]
    obtain m' it where r: "erase_vertex self_edge ?m (Some r) = Inr (m', it)"
      "refcount_ok m'" "distinct_children m'" "at m' r = None"
      "\<forall>x. x \<noteq> r \<longrightarrow>
         at m' x = (if 0 < count_key ?m x \<and> count_key m' x = 0 then None else at ?m x)"
      by blast
    have "at m' x = None \<or> at m' x = at ?m x" for x
      using r(4,5) by (cases "x = r") auto
    moreover have "at m' x = None" if "x \<noteq> r \<and> 0 < count_key ?m x \<and> count_key m' x = 0" for x
      using r(5) that by auto
    ultimately show ?thesis using r(1,2,3,4) by blast
  next
    case False
    with assms(2,3) have "erase_vertex self_edge ?m (Some r) = Inr (?m, Some r)"
      by (simp add: erase_vertex_def)
    with False assms(4,5) show ?thesis by auto
  qed
  then obtain m' it where r: "erase_vertex self_edge ?m (Some r) = Inr (m', it)"
      "refcount_ok m'" "distinct_children m'"
      "\<forall>x. at m' x = None \<or> at m' x = at ?m x"
      "\<forall>x. x \<noteq> r \<and> 0 < count_key ?m x \<and> count_key m' x = 0 \<longrightarrow> at m' x = None"
      "at m' r = None \<or> count_key m' r \<noteq> 0"
    by blast
  have run: "root_set self_edge t value = Inr \<lparr>t_vertices = m', t_root = value\<rparr>"
    using r(1) assms(1) by (simp add: root_set_def)
  have gf: "garbage_free L m'"
    using assms(4) r(2) assms(6,7) r(4,5,6) by (rule garbage_free_after)
  have "children_rel m' \<subseteq> children_rel ?m"
    using r(4) by (auto simp: children_rel_def) (metis option.distinct(1))
  then have "acyclic (children_rel m')" using assms(6) by (rule acyclic_subset [rotated])
  with run gf r(2,3) show ?thesis by simp
qed

text \<open>The two example stores, written out.\<close>

lemma shared_store_eq:
  "shared_store = \<lparr>m_vertices = [(4, node 4 []), (5, node 5 []), (24, node 2 [4])],
                    m_edges = [(4, 24)]\<rparr>"
  unfolding shared_store_def by code_simp

lemma twice_store_eq:
  "twice_store = \<lparr>m_vertices = [(4, node 4 []), (5, node 5 []), (24, node 2 [4])],
                   m_edges = [(4, 24), (4, 24)]\<rparr>"
  unfolding twice_store_def by code_simp

lemma children_rel_example:
  "children_rel \<lparr>m_vertices = [(4, node 4 []), (5, node 5 []), (24, node 2 [4])], m_edges = es\<rparr>
     = {(24, 4)}"
  by (auto simp: children_rel_def at_def node_def split: if_splits)

lemma garbage_free_example:
  "garbage_free {24, 5}
     \<lparr>m_vertices = [(4, node 4 []), (5, node 5 []), (24, node 2 [4])], m_edges = es\<rparr>"
  unfolding garbage_free_def children_rel_example
  by (auto simp: at_def split: if_splits)

text \<open>
  An instance: the tree with the root 24 over \<open>shared_store\<close>, and 5 as the other
  live root. Setting the root to 5 removes 24 and its child 4.
\<close>

theorem root_set_garbage_free_witness:
  "refcount_ok shared_store \<and> distinct_children shared_store \<and>
   acyclic (children_rel shared_store) \<and> garbage_free {24, 5} shared_store \<and>
   root_set content_key \<lparr>t_vertices = shared_store, t_root = Some 24\<rparr> (Some 5)
     = Inr \<lparr>t_vertices = \<lparr>m_vertices = [(5, node 5 [])], m_edges = []\<rparr>, t_root = Some 5\<rparr> \<and>
   garbage_free {5} \<lparr>m_vertices = [(5, node 5 [])], m_edges = []\<rparr>"
proof -
  let ?t = "\<lparr>t_vertices = shared_store, t_root = Some 24\<rparr>"
  have root: "t_root ?t = Some 24" by simp
  have stored: "at (t_vertices ?t) 24 = Some (node 2 [4])"
    by (simp add: shared_store_eq at_def)
  have key: "content_key (node 2 [4]) = 24" by code_simp
  have ok: "refcount_ok (t_vertices ?t)"
    by (auto simp: shared_store_eq refcount_ok_def at_def node_def split: if_splits)
  have dc: "distinct_children (t_vertices ?t)"
    by (auto simp: shared_store_eq distinct_children_def at_def node_def split: if_splits)
  have acyc: "acyclic (children_rel (t_vertices ?t))"
  proof -
    have "acyclic ({} :: (nat \<times> nat) set)" by (simp add: acyclic_def)
    then show ?thesis
      by (simp add: shared_store_eq children_rel_example acyclic_insert)
  qed
  have gf: "garbage_free (insert 24 {5}) (t_vertices ?t)"
    using garbage_free_example [of "[(4, 24)]"] by (simp add: shared_store_eq)
  have run: "root_set content_key ?t (Some 5)
     = Inr \<lparr>t_vertices = \<lparr>m_vertices = [(5, node 5 [])], m_edges = []\<rparr>, t_root = Some 5\<rparr>"
    unfolding shared_store_eq by code_simp
  from root_set_garbage_free [of _ _ _ content_key _ "Some 5",
      OF root stored key ok dc acyc gf]
  have "garbage_free {5} \<lparr>m_vertices = [(5, node 5 [])], m_edges = [] :: (nat \<times> nat) list\<rparr>"
    unfolding run by auto
  with ok dc acyc gf run show ?thesis by simp
qed

text \<open>
  The same tree over \<open>twice_store\<close>, in which the vertex 24 has been inserted twice and
  the edge from 4 to 24 is held twice. The root setter erases 24 and one of the two
  edges; the vertex 4 keeps the count one and stays in the store, where no live root
  reaches it.
\<close>

theorem root_set_leaves_garbage_counterexample:
  "twice_store = fst (insert_vertex shared_store (24, node 2 [4])) \<and>
   garbage_free {24, 5} twice_store \<and>
   root_set content_key \<lparr>t_vertices = twice_store, t_root = Some 24\<rparr> (Some 5)
     = Inr \<lparr>t_vertices = \<lparr>m_vertices = [(4, node 4 []), (5, node 5 [])], m_edges = [(4, 24)]\<rparr>,
            t_root = Some 5\<rparr> \<and>
   \<not> garbage_free {5} \<lparr>m_vertices = [(4, node 4 []), (5, node 5 [])], m_edges = [(4, 24)]\<rparr>"
proof -
  have built: "twice_store = fst (insert_vertex shared_store (24, node 2 [4]))"
    unfolding twice_store_eq shared_store_eq by code_simp
  have before: "garbage_free {24, 5} twice_store"
    unfolding twice_store_eq by (rule garbage_free_example)
  have run: "root_set content_key \<lparr>t_vertices = twice_store, t_root = Some 24\<rparr> (Some 5)
     = Inr \<lparr>t_vertices = \<lparr>m_vertices = [(4, node 4 []), (5, node 5 [])], m_edges = [(4, 24)]\<rparr>,
            t_root = Some 5\<rparr>"
    unfolding twice_store_eq by code_simp
  have rel: "children_rel \<lparr>m_vertices = [(4, node 4 []), (5, node 5 [])], m_edges = [(4, 24 :: nat)]\<rparr> = {}"
    by (auto simp: children_rel_def at_def node_def split: if_splits)
  have after: "\<not> garbage_free {5} \<lparr>m_vertices = [(4, node 4 []), (5, node 5 [])], m_edges = [(4, 24)]\<rparr>"
    unfolding garbage_free_def rel by (auto simp: at_def intro: exI [of _ 4])
  from built before run after show ?thesis by (intro conjI)
qed

end
